theory Spec2Isabelle
  imports Main "HOL-Library.Char_ord" "HOL-Library.List_Lexorder"
begin

section \<open>JavaScript values\<close>

text \<open>
  The test engine of \<^verbatim>\<open>ts/01_test-call.ts\<close> inspects the values it is given with
  \<^verbatim>\<open>typeof\<close>, \<^verbatim>\<open>instanceof\<close>, \<^verbatim>\<open>.constructor\<close> and \<^verbatim>\<open>isDeepStrictEqual\<close>. The values are
  modelled by a datatype that carries what these four operations read:
  \<^item> a function by its name, and by whether it has a \<^verbatim>\<open>prototype\<close> object: \<open>JFunction\<close> is a
    class or a function declared with \<^verbatim>\<open>function\<close>, which has one; \<open>JArrow\<close> is an arrow
    function or a method, which has none. Two functions of the same name are the same
    function;
  \<^item> an object by its prototype chain (the names of the constructors on the chain, the
    nearest first) and its own properties, in the order they were added. An \<^verbatim>\<open>Error\<close>
    instance is an object whose chain holds \<^verbatim>\<open>Error\<close>; \<^verbatim>\<open>Object.create(null)\<close> has the empty
    chain.
  Numbers are integers (no NaN, no fractions), property values are strings, and the keys of
  a property list are distinct. No property of an object hides what its prototype chain
  gives it (its \<^verbatim>\<open>constructor\<close>). The \<^verbatim>\<open>message\<close> and the \<^verbatim>\<open>stack\<close> of an error are the
  properties its constructor gave it, which are not enumerable; every other property is
  enumerable. Arrays, dates, maps and the other built-in containers are not modelled.
\<close>

datatype jsval =
    JUndefined
  | JNull
  | JBoolean bool
  | JNumber int
  | JString string
  | JFunction string
  | JArrow string
  | JObject (protoChain: "string list") (props: "(string \<times> string) list")

definition newErrorOf :: "string \<Rightarrow> string \<Rightarrow> jsval" where
  \<comment> \<open>\<^verbatim>\<open>new C(message)\<close> for a class \<^verbatim>\<open>C\<close> that extends \<^verbatim>\<open>Error\<close> directly\<close>
  "newErrorOf c message = JObject [c, ''Error'', ''Object''] [(''message'', message)]"

definition newError :: "string \<Rightarrow> jsval" where
  \<comment> \<open>\<^verbatim>\<open>new Error(message)\<close>\<close>
  "newError message = JObject [''Error'', ''Object''] [(''message'', message)]"

definition instanceofError :: "jsval \<Rightarrow> bool" where
  \<comment> \<open>\<^verbatim>\<open>value instanceof Error\<close>\<close>
  "instanceofError v = (case v of JObject chain ps \<Rightarrow> ''Error'' \<in> set chain | _ \<Rightarrow> False)"

definition typeError :: "string \<Rightarrow> jsval" where
  "typeError message = newErrorOf ''TypeError'' message"

text \<open>
  \<^verbatim>\<open>value instanceof c\<close>. A right-hand side that is not an object, or not callable, is a
  \<^verbatim>\<open>TypeError\<close>. For a function, a value that is neither an object nor a function is no
  instance; otherwise the \<^verbatim>\<open>prototype\<close> of the function is looked for on the prototype
  chain of the value, and it is a \<^verbatim>\<open>TypeError\<close> again when the function has no \<^verbatim>\<open>prototype\<close>
  object. Every function has \<^verbatim>\<open>Function\<close> and \<^verbatim>\<open>Object\<close> on its chain.
\<close>

definition js_instanceof :: "jsval \<Rightarrow> jsval \<Rightarrow> jsval + bool" where
  "js_instanceof v c =
     (case c of
        JFunction name \<Rightarrow>
          Inr (case v of
                 JObject chain ps \<Rightarrow> name \<in> set chain
               | JFunction f \<Rightarrow> name = ''Function'' \<or> name = ''Object''
               | JArrow f \<Rightarrow> name = ''Function'' \<or> name = ''Object''
               | _ \<Rightarrow> False)
      | JArrow name \<Rightarrow>
          (case v of
             JObject chain ps \<Rightarrow>
               Inl (typeError ''Function has non-object prototype 'undefined' in instanceof check'')
           | JFunction f \<Rightarrow>
               Inl (typeError ''Function has non-object prototype 'undefined' in instanceof check'')
           | JArrow f \<Rightarrow>
               Inl (typeError ''Function has non-object prototype 'undefined' in instanceof check'')
           | _ \<Rightarrow> Inr False)
      | JObject chain ps \<Rightarrow> Inl (typeError ''Right-hand side of 'instanceof' is not callable'')
      | _ \<Rightarrow> Inl (typeError ''Right-hand side of 'instanceof' is not an object''))"

subsection \<open>Deep equality\<close>

text \<open>
  \<^verbatim>\<open>util.isDeepStrictEqual\<close> on these values. Two primitive values, or two functions, are
  equal when they are the same. Two objects are equal when they have the same prototype,
  the same own enumerable keys, in whatever order, and the same value under each key. Two
  errors must moreover have the same \<^verbatim>\<open>message\<close> and the same \<^verbatim>\<open>name\<close>, read the way
  \<^verbatim>\<open>err.message\<close> and \<^verbatim>\<open>err.name\<close> read them: from the error itself, or else from its
  prototype chain, where \<^verbatim>\<open>Error.prototype.message\<close> is the empty string and each built-in
  error class has its own name. The stack of an error is not compared.
\<close>

definition builtinErrorClasses :: "string list" where
  "builtinErrorClasses =
     [''Error'', ''EvalError'', ''RangeError'', ''ReferenceError'', ''SyntaxError'',
      ''TypeError'', ''URIError'', ''AggregateError'']"

definition getMessage :: "(string \<times> string) list \<Rightarrow> string" where
  \<comment> \<open>\<^verbatim>\<open>err.message\<close>\<close>
  "getMessage ps = (case map_of ps ''message'' of Some message \<Rightarrow> message | None \<Rightarrow> [])"

definition getName :: "string list \<Rightarrow> (string \<times> string) list \<Rightarrow> string" where
  \<comment> \<open>\<^verbatim>\<open>err.name\<close>: a class declared by the program inherits the name of the built-in class
      it extends\<close>
  "getName chain ps =
     (case map_of ps ''name'' of
        Some name \<Rightarrow> name
      | None \<Rightarrow>
          (case filter (\<lambda>c. c \<in> set builtinErrorClasses) chain of [] \<Rightarrow> [] | c # _ \<Rightarrow> c))"

definition enumerableProps :: "string list \<Rightarrow> (string \<times> string) list \<Rightarrow> (string \<times> string) list" where
  "enumerableProps chain ps =
     (if ''Error'' \<in> set chain
      then filter (\<lambda>(key, v). key \<noteq> ''message'' \<and> key \<noteq> ''stack'') ps
      else ps)"

definition keyCheck :: "(string \<times> string) list \<Rightarrow> (string \<times> string) list \<Rightarrow> bool" where
  \<comment> \<open>as many keys on both sides, each key of the first is a key of the second, and the
      values under it are equal\<close>
  "keyCheck ps qs =
     (length (remdups (map fst ps)) = length (remdups (map fst qs)) \<and>
      list_all (\<lambda>key. key \<in> set (map fst qs) \<and> map_of ps key = map_of qs key) (map fst ps))"

definition isDeepStrictEqual :: "jsval \<Rightarrow> jsval \<Rightarrow> bool" where
  "isDeepStrictEqual a b =
     (case (a, b) of
        (JObject chain ps, JObject chain' qs) \<Rightarrow>
          chain = chain' \<and>
          (if ''Error'' \<in> set chain
           then getMessage ps = getMessage qs \<and> getName chain ps = getName chain' qs
           else True) \<and>
          keyCheck (enumerableProps chain ps) (enumerableProps chain' qs)
      | _ \<Rightarrow> a = b)"

subsection \<open>Rendering values as text\<close>

fun show_nat :: "nat \<Rightarrow> string" where
  "show_nat n =
     (if n < 10 then [char_of (48 + n)] else show_nat (n div 10) @ [char_of (48 + n mod 10)])"

declare show_nat.simps [simp del]

definition show_int :: "int \<Rightarrow> string" where
  "show_int i = (if i < 0 then CHR ''-'' # show_nat (nat (- i)) else show_nat (nat i))"

definition json_string :: "string \<Rightarrow> string" where
  \<comment> \<open>the string between double quotes (the escaping of special characters is left out)\<close>
  "json_string s = CHR 0x22 # s @ [CHR 0x22]"

fun json_members :: "(string \<times> string) list \<Rightarrow> string" where
  "json_members [] = []"
| "json_members [(k, v)] = CHR 0x0A # ''   '' @ json_string k @ '': '' @ json_string v"
| "json_members ((k, v) # rest) =
     CHR 0x0A # ''   '' @ json_string k @ '': '' @ json_string v @ '','' @ json_members rest"

definition errorToString :: "jsval \<Rightarrow> string" where
  \<comment> \<open>the first line of what \<^verbatim>\<open>util.inspect\<close> prints for an error: its class and message
      (the stack trace is left out)\<close>
  "errorToString v =
     (case v of
        JObject chain ps \<Rightarrow>
          (case chain of [] \<Rightarrow> [] | c # _ \<Rightarrow> c) @ '': '' @
          (case map_of ps ''message'' of None \<Rightarrow> [] | Some m \<Rightarrow> m)
      | _ \<Rightarrow> [])"

definition pprint :: "jsval \<Rightarrow> string option" where
  \<comment> \<open>\<^verbatim>\<open>inspect(value)\<close> for an error, \<^verbatim>\<open>JSON.stringify(value, null, 3)\<close> otherwise, which
      is \<^verbatim>\<open>undefined\<close> (\<open>None\<close>) for \<^verbatim>\<open>undefined\<close> and for a function\<close>
  "pprint v =
     (if instanceofError v then Some (errorToString v)
      else case v of
        JUndefined \<Rightarrow> None
      | JNull \<Rightarrow> Some ''null''
      | JBoolean b \<Rightarrow> Some (if b then ''true'' else ''false'')
      | JNumber n \<Rightarrow> Some (show_int n)
      | JString s \<Rightarrow> Some (json_string s)
      | JFunction f \<Rightarrow> None
      | JArrow f \<Rightarrow> None
      | JObject chain ps \<Rightarrow>
          Some (if ps = [] then ''{}'' else ''{'' @ json_members ps @ [CHR 0x0A] @ ''}''))"

definition inTemplate :: "string option \<Rightarrow> string" where
  \<comment> \<open>a value that is a string or \<^verbatim>\<open>undefined\<close>, inside a template literal\<close>
  "inTemplate s = (case s of None \<Rightarrow> ''undefined'' | Some text \<Rightarrow> text)"

definition newErrorWith :: "string option \<Rightarrow> jsval" where
  \<comment> \<open>\<^verbatim>\<open>new Error(message)\<close> for a message that may be \<^verbatim>\<open>undefined\<close>: the error then has no
      message of its own\<close>
  "newErrorWith s = (case s of None \<Rightarrow> JObject [''Error'', ''Object''] [] | Some text \<Rightarrow> newError text)"

definition String_js :: "jsval \<Rightarrow> string" where
  \<comment> \<open>\<^verbatim>\<open>String(value)\<close>; a function is rendered by its name only\<close>
  "String_js v =
     (case v of
        JUndefined \<Rightarrow> ''undefined''
      | JNull \<Rightarrow> ''null''
      | JBoolean b \<Rightarrow> (if b then ''true'' else ''false'')
      | JNumber n \<Rightarrow> show_int n
      | JString s \<Rightarrow> s
      | JFunction f \<Rightarrow> ''function '' @ f
      | JArrow f \<Rightarrow> ''function '' @ f
      | JObject chain ps \<Rightarrow>
          (if ''Error'' \<in> set chain then errorToString v else ''[object Object]''))"

section \<open>Utilities (\<^verbatim>\<open>ts/00_utilities.ts\<close>)\<close>

definition errorFromReason :: "jsval \<Rightarrow> jsval" where
  "errorFromReason reason =
     (if instanceofError reason then reason
      else case reason of
        JObject chain ps \<Rightarrow>
          (case (map_of ps ''name'', map_of ps ''message'') of
             (Some name, Some message) \<Rightarrow>
               (case map_of ps ''stack'' of
                  Some stack \<Rightarrow>
                    newError (''[fromReason] '' @ name @ '': '' @ message @ [CHR 0x0A] @ stack)
                | None \<Rightarrow> newError (''[fromReason] '' @ name @ '': '' @ message))
           | _ \<Rightarrow> newErrorWith (pprint reason))
      | _ \<Rightarrow> newErrorWith (pprint reason))"

definition compareStringsAscending :: "string \<Rightarrow> string \<Rightarrow> int" where
  \<comment> \<open>a string is truthy when it is not empty; \<^verbatim>\<open>a < b\<close> compares code units
      lexicographically\<close>
  "compareStringsAscending a b =
     (if a \<noteq> [] \<and> b \<noteq> [] then (if a < b then - 1 else if a = b then 0 else 1)
      else if a \<noteq> [] then - 1
      else if b \<noteq> [] then 1
      else 0)"

section \<open>Test calls and their executions (\<^verbatim>\<open>ts/01_test-call.ts\<close>)\<close>

text \<open>
  What a tested function does when it is called: it returns a value or throws in the same
  turn of the event loop, or it returns a promise that is fulfilled or rejected after a
  number of milliseconds, or one that never settles.
\<close>

datatype behaviour =
    Returns jsval
  | Throws jsval
  | ResolvesAfter nat jsval
  | RejectsAfter nat jsval
  | NeverSettles

record TestCall =
  fn :: "jsval list \<Rightarrow> behaviour"
  inputs :: "jsval list"
  timeoutDuration :: "nat option"

text \<open>
  \<^verbatim>\<open>TestCallResult\<close>: field \<open>error\<close> is \<open>None\<close> for \<^verbatim>\<open>null\<close>; field \<open>val\<close> is the source's
  \<^verbatim>\<open>value\<close>.
\<close>

record TestCallResult =
  error :: "jsval option"
  val :: jsval

definition makeNormalTestCallResult :: "jsval \<Rightarrow> TestCallResult" where
  "makeNormalTestCallResult v = \<lparr>error = None, val = v\<rparr>"

definition makeErrorTestCallResult :: "jsval \<Rightarrow> TestCallResult" where
  "makeErrorTestCallResult e = \<lparr>error = Some e, val = JNull\<rparr>"

datatype TestExecutionStatus =
    INITIALIZED_EXECUTION
  | CANCELLED_EXECUTION
  | SKIPPED_EXECUTION
  | DONE_EXECUTION

text \<open>\<^verbatim>\<open>TestCallExecution\<close>: field \<open>cancelError\<close> is the source's \<^verbatim>\<open>error\<close>.\<close>

record TestCallExecution =
  testCall :: TestCall
  testExecutionStatus :: TestExecutionStatus
  passed :: bool
  obtained :: "TestCallResult option"
  expected :: TestCallResult
  cancelError :: "jsval option"

definition initializeTestCallExecution :: "TestCallResult \<Rightarrow> TestCall \<Rightarrow> TestCallExecution" where
  "initializeTestCallExecution testCallResult tc =
     \<lparr>testCall = tc,
      testExecutionStatus = INITIALIZED_EXECUTION,
      passed = False,
      obtained = None,
      expected = testCallResult,
      cancelError = None\<rparr>"

subsection \<open>Statistics\<close>

record TestExecutionStatistics =
  ok :: nat
  ko :: nat
  skipped :: nat
  total :: nat

definition newTestExecutionStatistics :: TestExecutionStatistics where
  "newTestExecutionStatistics = \<lparr>ok = 0, ko = 0, skipped = 0, total = 0\<rparr>"

definition addTestExecutionStatistics ::
  "TestExecutionStatistics \<Rightarrow> TestExecutionStatistics \<Rightarrow> TestExecutionStatistics" where
  "addTestExecutionStatistics target source =
     \<lparr>ok = ok target + ok source,
      ko = ko target + ko source,
      skipped = skipped target + skipped source,
      total = total target + total source\<rparr>"

definition addTestExecution ::
  "TestCallExecution \<Rightarrow> TestExecutionStatistics \<Rightarrow> TestExecutionStatistics" where
  "addTestExecution testExecution st =
     (if testExecutionStatus testExecution = DONE_EXECUTION \<and> passed testExecution
        then st\<lparr>ok := ok st + 1\<rparr>
      else if testExecutionStatus testExecution = SKIPPED_EXECUTION
        then st\<lparr>skipped := skipped st + 1\<rparr>
      else st\<lparr>ko := ko st + 1\<rparr>)
     \<lparr>total := total st + 1\<rparr>"

definition makeTestExecutionStatistics :: "TestCallExecution list \<Rightarrow> TestExecutionStatistics" where
  "makeTestExecutionStatistics testCallExecutions =
     foldl (\<lambda>st e. addTestExecution e st) newTestExecutionStatistics testCallExecutions"

subsection \<open>Reading the obtained failure\<close>

fun getConstructor :: "jsval \<Rightarrow> jsval option" where
  \<comment> \<open>\<open>None\<close> is \<^verbatim>\<open>null\<close>, and also the \<^verbatim>\<open>undefined\<close> that \<^verbatim>\<open>reason.constructor\<close> gives
      for an object with no prototype; both are falsy for the caller\<close>
  "getConstructor (JBoolean b) = Some (JFunction ''Boolean'')"
| "getConstructor (JNumber n) = Some (JFunction ''Number'')"
| "getConstructor (JString s) = Some (JFunction ''String'')"
| "getConstructor (JFunction f) = Some (JFunction ''Function'')"
| "getConstructor (JArrow f) = Some (JFunction ''Function'')"
| "getConstructor JUndefined = None"
| "getConstructor JNull = None"
| "getConstructor (JObject chain ps) =
     (case chain of [] \<Rightarrow> None | c # _ \<Rightarrow> Some (JFunction c))"

definition asErrorOrConstructor :: "jsval \<Rightarrow> jsval + jsval" where
  \<comment> \<open>\<open>Inl\<close> is the error thrown\<close>
  "asErrorOrConstructor reason =
     (if instanceofError reason then Inr reason
      else case getConstructor reason of
        Some c \<Rightarrow> Inr c
      | None \<Rightarrow>
          Inl (newError (''[asErrorOrConstructor] Cannot retrieve the constructor of the obtained error ''
                 @ inTemplate (pprint reason))))"

subsection \<open>Comparing the outcome of a call with the expectation\<close>

definition compareWithObtainedValue :: "jsval \<Rightarrow> TestCallExecution \<Rightarrow> TestCallExecution" where
  "compareWithObtainedValue v e =
     e\<lparr>testExecutionStatus := DONE_EXECUTION,
       passed := (error (expected e) = None \<and> isDeepStrictEqual v (val (expected e))),
       obtained := Some (makeNormalTestCallResult v)\<rparr>"

text \<open>
  \<^verbatim>\<open>compareWithObtainedError\<close> mutates the record field by field, and the call of
  \<^verbatim>\<open>asErrorOrConstructor\<close> in the last assignment may throw after the first two are done.
  The \<^verbatim>\<open>instanceof\<close> against an expectation that is no \<^verbatim>\<open>Error\<close> instance may throw as well,
  before any assignment. The model returns the error thrown, if any, with the record as it
  is at that point.
\<close>

definition compareWithObtainedError ::
  "jsval \<Rightarrow> TestCallExecution \<Rightarrow> jsval option \<times> TestCallExecution" where
  "compareWithObtainedError reason e =
     (case (case error (expected e) of
              None \<Rightarrow> Inr False
            | Some expectedError \<Rightarrow>
                if instanceofError expectedError then
                  (if instanceofError reason then Inr (isDeepStrictEqual expectedError reason)
                   else Inr False)
                else js_instanceof reason expectedError) of
        Inl thrown \<Rightarrow> (Some thrown, e)
      | Inr p \<Rightarrow>
          (let e' = e\<lparr>testExecutionStatus := DONE_EXECUTION, passed := p\<rparr> in
           case asErrorOrConstructor reason of
             Inl thrown \<Rightarrow> (Some thrown, e')
           | Inr errorOrConstructor \<Rightarrow>
               (None, e'\<lparr>obtained := Some (makeErrorTestCallResult errorOrConstructor)\<rparr>)))"

definition cancelTestCallExecution :: "jsval \<Rightarrow> TestCallExecution \<Rightarrow> TestCallExecution" where
  "cancelTestCallExecution reason e =
     e\<lparr>testExecutionStatus := CANCELLED_EXECUTION,
       cancelError := Some (if instanceofError reason then reason else newError (String_js reason))\<rparr>"

subsection \<open>One call raced against its timer\<close>

text \<open>
  \<^verbatim>\<open>promisedTestResult\<close>: a synchronous return or throw settles the promise at once, and a
  thrown reason goes through \<^verbatim>\<open>errorFromReason\<close>; a returned promise is adopted as it is.
\<close>

datatype promise = FulfilsAt nat jsval | RejectsAt nat jsval | StaysPending

definition promisedTestResult :: "TestCall \<Rightarrow> promise" where
  "promisedTestResult tc =
     (case fn tc (inputs tc) of
        Returns v \<Rightarrow> FulfilsAt 0 v
      | Throws reason \<Rightarrow> RejectsAt 0 (errorFromReason reason)
      | ResolvesAfter d v \<Rightarrow> FulfilsAt d v
      | RejectsAfter d reason \<Rightarrow> RejectsAt d reason
      | NeverSettles \<Rightarrow> StaysPending)"

definition timerDelay :: "nat \<Rightarrow> nat" where
  \<comment> \<open>\<^verbatim>\<open>setTimeout\<close> of Node.js: a delay below 1 or above 2147483647 is set to 1\<close>
  "timerDelay t = (if t < 1 \<or> 2147483647 < t then 1 else t)"

definition timeoutError :: "nat \<Rightarrow> jsval" where
  "timeoutError t = newError (''Execution timed out (duration: '' @ show_nat t @ '')'')"

text \<open>
  \<^verbatim>\<open>Promise.race([promisedTestResult, timingPromise])\<close>: the settlement handed to
  \<^verbatim>\<open>onFulfilled\<close> or \<^verbatim>\<open>onRejected\<close>, with the value of \<^verbatim>\<open>hasTimedOut\<close> at that moment.
  When both settle at the same millisecond the call wins, its timer being armed first;
  the theorems below only use strict comparisons.
\<close>

datatype settlement = Fulfilled jsval | Rejected jsval bool

definition race :: "promise \<Rightarrow> nat \<Rightarrow> settlement" where
  "race p t =
     (case p of
        FulfilsAt d v \<Rightarrow> if d \<le> timerDelay t then Fulfilled v else Rejected (timeoutError t) True
      | RejectsAt d reason \<Rightarrow>
          if d \<le> timerDelay t then Rejected reason False else Rejected (timeoutError t) True
      | StaysPending \<Rightarrow> Rejected (timeoutError t) True)"

text \<open>
  What \<^verbatim>\<open>onFulfilled\<close> or \<^verbatim>\<open>onRejected\<close> does once the record is updated: it schedules
  \<^verbatim>\<open>executeNextTestCall\<close>, or it calls \<^verbatim>\<open>cancelExecution\<close>. Exactly one of the two callbacks
  runs, once, for the settlement of the race, so \<^verbatim>\<open>wrapUpDone\<close> is false when it does.
  \<^verbatim>\<open>compareWithObtainedValue\<close> throws nothing, and neither does the building of the two
  promises: the \<^verbatim>\<open>catch\<close> of \<^verbatim>\<open>onFulfilled\<close> and the one around the race are not reached.
\<close>

datatype continuation = ExecuteNextTestCall | CancelExecution

definition onFulfilled :: "jsval \<Rightarrow> TestCallExecution \<Rightarrow> TestCallExecution \<times> continuation" where
  "onFulfilled v e = (compareWithObtainedValue v e, ExecuteNextTestCall)"

definition onRejected ::
  "jsval \<Rightarrow> bool \<Rightarrow> TestCallExecution \<Rightarrow> TestCallExecution \<times> continuation" where
  "onRejected reason hasTimedOut e =
     (if hasTimedOut then (cancelTestCallExecution reason e, CancelExecution)
      else case compareWithObtainedError reason e of
        (None, e') \<Rightarrow> (e', ExecuteNextTestCall)
      | (Some thrown, e') \<Rightarrow> (cancelTestCallExecution thrown e', CancelExecution))"

definition executeTestCall :: "TestCallExecution \<Rightarrow> nat \<Rightarrow> TestCallExecution \<times> continuation" where
  "executeTestCall e defaultDelay =
     (let tc = testCall e;
          t = (case timeoutDuration tc of Some d \<Rightarrow> d | None \<Rightarrow> defaultDelay)
      in case race (promisedTestResult tc) t of
           Fulfilled v \<Rightarrow> onFulfilled v e
         | Rejected reason hasTimedOut \<Rightarrow> onRejected reason hasTimedOut e)"

subsection \<open>The run over the pending list\<close>

text \<open>
  \<^verbatim>\<open>executeNextTestCall\<close> inside \<^verbatim>\<open>executeTestCalls\<close>: the array is updated in place at
  \<open>offset\<close>, and the result is the array at the moment \<^verbatim>\<open>cancelExecution\<close> resolves the
  promise of \<^verbatim>\<open>run\<close>. The array is built by \<^verbatim>\<open>push\<close> only, so it has no hole and the
  \<^verbatim>\<open>undefined\<close> branch is not reached.
\<close>

function executeNextTestCall ::
  "TestCallExecution list \<Rightarrow> nat \<Rightarrow> bool \<Rightarrow> nat \<Rightarrow> TestCallExecution list" where
  "executeNextTestCall xs defaultDelay skipTimeboxedTests offset =
     (if offset < length xs then
        (if timeoutDuration (testCall (xs ! offset)) = None \<or> \<not> skipTimeboxedTests then
           (if snd (executeTestCall (xs ! offset) defaultDelay) = ExecuteNextTestCall then
              executeNextTestCall (xs[offset := fst (executeTestCall (xs ! offset) defaultDelay)])
                defaultDelay skipTimeboxedTests (offset + 1)
            else xs[offset := fst (executeTestCall (xs ! offset) defaultDelay)])
         else
           executeNextTestCall
             (xs[offset := (xs ! offset)\<lparr>testExecutionStatus := SKIPPED_EXECUTION\<rparr>])
             defaultDelay skipTimeboxedTests (offset + 1))
      else xs)"
  by pat_completeness auto
termination
  by (relation "measure (\<lambda>(xs, d, s, offset). length xs - offset)") auto

declare executeNextTestCall.simps [simp del]

definition executeTestCalls ::
  "TestCallExecution list \<Rightarrow> nat \<Rightarrow> bool \<Rightarrow> TestCallExecution list" where
  "executeTestCalls xs defaultDelay skipTimeboxedTests =
     executeNextTestCall xs defaultDelay skipTimeboxedTests 0"

subsection \<open>The supervisor\<close>

definition DEFAULT_TIMEOUT_DURATION :: nat where
  "DEFAULT_TIMEOUT_DURATION = 200"

record TestExecutionOptions =
  skipTimeboxedTests :: bool

record TestCallSupervisor =
  running :: bool
  testCallExecutions :: "TestCallExecution list"

definition makeTestCallSupervisor :: TestCallSupervisor where
  "makeTestCallSupervisor = \<lparr>running = False, testCallExecutions = []\<rparr>"

text \<open>
  A \<^verbatim>\<open>TestCallSpecifier\<close> is a pair of closures over the \<^verbatim>\<open>TestCall\<close> built by
  \<^verbatim>\<open>makeTestCallSpecifier\<close>; it is modelled by that test call, and \<open>equals\<close> and \<open>throws\<close>
  take it as their first argument.
\<close>

type_synonym TestCallSpecifier = TestCall

definition makeTestCallSpecifier ::
  "nat option \<Rightarrow> (jsval list \<Rightarrow> behaviour) \<Rightarrow> jsval list \<Rightarrow> TestCallSpecifier" where
  "makeTestCallSpecifier t f vs = \<lparr>fn = f, inputs = vs, timeoutDuration = t\<rparr>"

definition equals :: "TestCallSpecifier \<Rightarrow> jsval \<Rightarrow> TestCallSupervisor \<Rightarrow> TestCallSupervisor" where
  "equals spec v s =
     s\<lparr>testCallExecutions :=
         testCallExecutions s @ [initializeTestCallExecution (makeNormalTestCallResult v) spec]\<rparr>"

definition throws :: "TestCallSpecifier \<Rightarrow> jsval \<Rightarrow> TestCallSupervisor \<Rightarrow> TestCallSupervisor" where
  "throws spec err s =
     s\<lparr>testCallExecutions :=
         testCallExecutions s @ [initializeTestCallExecution (makeErrorTestCallResult err) spec]\<rparr>"

definition call ::
  "(jsval list \<Rightarrow> behaviour) \<Rightarrow> jsval list \<Rightarrow> TestCallSupervisor
     \<Rightarrow> TestCallSpecifier \<times> TestCallSupervisor" where
  "call f vs s = (makeTestCallSpecifier None f vs, s)"

definition stopPast ::
  "nat \<Rightarrow> (jsval list \<Rightarrow> behaviour) \<Rightarrow> jsval list \<Rightarrow> TestCallSupervisor
     \<Rightarrow> TestCallSpecifier \<times> TestCallSupervisor" where
  "stopPast timeout f vs s = (makeTestCallSpecifier (Some timeout) f vs, s)"

definition reset :: "TestCallSupervisor \<Rightarrow> jsval + TestCallSupervisor" where
  "reset s =
     (if running s then Inl (newError ''Cannot call `reset()` while running'')
      else Inr (s\<lparr>testCallExecutions := []\<rparr>))"

text \<open>
  \<^verbatim>\<open>run\<close>: the promise is rejected when a run is in progress; otherwise it is resolved
  with the array of executions once \<^verbatim>\<open>cancelExecution\<close> is called, which also clears
  \<open>running\<close>.
\<close>

definition run ::
  "TestExecutionOptions \<Rightarrow> TestCallSupervisor
     \<Rightarrow> (jsval + TestCallExecution list) \<times> TestCallSupervisor" where
  "run testExecutionOptions s =
     (if running s then (Inl (newError ''`run()` has already been called''), s)
      else
        (let r = executeTestCalls (testCallExecutions s) DEFAULT_TIMEOUT_DURATION
                   (skipTimeboxedTests testExecutionOptions)
         in (Inr r, s\<lparr>running := False, testCallExecutions := r\<rparr>)))"

section \<open>Pathnames and path items\<close>

text \<open>
  The library functions of JavaScript and of the \<^verbatim>\<open>path\<close> module of Node.js that the walker
  calls, for a POSIX system: the separator \<^verbatim>\<open>sep\<close> is the slash.
\<close>

definition sep :: char where
  "sep = CHR ''/''"

definition NORMAL_SEPARATOR :: char where
  \<comment> \<open>\<^verbatim>\<open>PATH_ELEMENTS.NORMAL_SEPARATOR\<close>\<close>
  "NORMAL_SEPARATOR = CHR ''/''"

fun split_js :: "string \<Rightarrow> char \<Rightarrow> string list" where
  \<comment> \<open>\<^verbatim>\<open>s.split(c)\<close>\<close>
  "split_js [] c = [[]]"
| "split_js (x # xs) c =
     (if x = c then [] # split_js xs c
      else case split_js xs c of [] \<Rightarrow> [[x]] | p # ps \<Rightarrow> (x # p) # ps)"

definition endsWith :: "string \<Rightarrow> char \<Rightarrow> bool" where
  "endsWith s c = (s \<noteq> [] \<and> last s = c)"

definition lastIndexOf :: "string \<Rightarrow> char \<Rightarrow> int" where
  \<comment> \<open>\<^verbatim>\<open>s.lastIndexOf(c)\<close>, \<open>- 1\<close> when \<open>c\<close> does not occur\<close>
  "lastIndexOf s c =
     (if c \<in> set s then int (length s) - 1 - int (length (takeWhile (\<lambda>x. x \<noteq> c) (rev s)))
      else - 1)"

definition substring :: "string \<Rightarrow> int \<Rightarrow> int \<Rightarrow> string" where
  \<comment> \<open>\<^verbatim>\<open>s.substring(i, j)\<close> for \<open>i \<le> j\<close>\<close>
  "substring s i j = take (nat j - nat i) (drop (nat i) s)"

definition slice :: "string \<Rightarrow> int \<Rightarrow> string" where
  \<comment> \<open>\<^verbatim>\<open>s.slice(i)\<close> for \<open>0 \<le> i\<close>\<close>
  "slice s i = drop (nat i) s"

fun joinWith :: "char \<Rightarrow> string list \<Rightarrow> string" where
  \<comment> \<open>\<^verbatim>\<open>segments.join(c)\<close>\<close>
  "joinWith c [] = []"
| "joinWith c [s] = s"
| "joinWith c (s # rest) = s @ c # joinWith c rest"

definition normalizeSegment :: "bool \<Rightarrow> string list \<Rightarrow> string \<Rightarrow> string list" where
  \<comment> \<open>one segment in \<^verbatim>\<open>normalizeString\<close> of \<^verbatim>\<open>path.posix\<close>: empty and \<^verbatim>\<open>.\<close> segments are
      dropped, \<^verbatim>\<open>..\<close> removes the segment before it\<close>
  "normalizeSegment allowAboveRoot acc seg =
     (if seg = [] \<or> seg = ''.'' then acc
      else if seg = ''..'' then
        (if acc \<noteq> [] \<and> last acc \<noteq> ''..'' then butlast acc
         else if allowAboveRoot then acc @ [''..'']
         else acc)
      else acc @ [seg])"

definition path_normalize :: "string \<Rightarrow> string" where
  \<comment> \<open>\<^verbatim>\<open>path.posix.normalize\<close>\<close>
  "path_normalize p =
     (if p = [] then ''.''
      else
        (let isAbsolute = (hd p = CHR ''/'');
             trailingSeparator = (last p = CHR ''/'');
             q = joinWith (CHR ''/'') (foldl (normalizeSegment (\<not> isAbsolute)) [] (split_js p (CHR ''/'')))
         in if q = [] then (if isAbsolute then ''/'' else if trailingSeparator then ''./'' else ''.'')
            else (if isAbsolute then ''/'' else []) @ q @ (if trailingSeparator then ''/'' else [])))"

definition join :: "string \<Rightarrow> string \<Rightarrow> string" where
  \<comment> \<open>\<^verbatim>\<open>path.posix.join(a, b)\<close>: the non-empty arguments joined by a slash, then normalized\<close>
  "join a b =
     (let joined = (if a = [] then b else if b = [] then a else a @ CHR ''/'' # b)
      in if joined = [] then ''.'' else path_normalize joined)"

subsection \<open>\<^verbatim>\<open>01-pathname\<close>\<close>

definition normalizePathname :: "string \<Rightarrow> string" where
  "normalizePathname pathname = map (\<lambda>c. if c = CHR 0x5C then NORMAL_SEPARATOR else c) pathname"

definition isFolderPathname :: "string \<Rightarrow> bool" where
  "isFolderPathname pathname =
     (if pathname = ''.'' \<or> pathname = ''..'' \<or> pathname = [] then True
      else last pathname = CHR 0x5C \<or> last pathname = CHR ''/'')"

definition isAbsolutePathname :: "string \<Rightarrow> bool" where
  \<comment> \<open>\<^verbatim>\<open>path.posix.isAbsolute\<close>\<close>
  "isAbsolutePathname pathname = (pathname \<noteq> [] \<and> hd pathname = CHR ''/'')"

fun matchesNavigation :: "string \<Rightarrow> bool" where
  \<comment> \<open>\<^verbatim>\<open>PATH_ELEMENTS.NAVIGATION_REGEXP.test\<close>: a dot followed by a slash or a backslash\<close>
  "matchesNavigation (x # y # rest) =
     ((x = CHR ''.'' \<and> (y = CHR ''/'' \<or> y = CHR 0x5C)) \<or> matchesNavigation (y # rest))"
| "matchesNavigation _ = False"

definition isResolvedPathname :: "string \<Rightarrow> bool" where
  "isResolvedPathname pathname =
     (pathname \<noteq> ''.'' \<and> pathname \<noteq> ''..'' \<and> \<not> matchesNavigation pathname)"

subsection \<open>\<^verbatim>\<open>02_path-items\<close>\<close>

datatype PathItem =
    FolderItem (folderPathname: string) (absolute: bool)
  | FileItem (folderPathname: string) (absolute: bool) (fileName: string) (extension: string)

definition parseFullFileName :: "string \<Rightarrow> string \<times> string" where
  \<comment> \<open>the file name and the extension\<close>
  "parseFullFileName fullFileName =
     (let offset = lastIndexOf fullFileName (CHR ''.'')
      in if offset = - 1 then (fullFileName, [])
         else (substring fullFileName 0 offset, slice fullFileName (offset + 1)))"

text \<open>
  \<^verbatim>\<open>asAbsoluteFile\<close> and \<^verbatim>\<open>asAbsoluteFolder\<close> throw when the pathname is not what they are
  designed for; the message of the error is the pathname (the description of its traits is
  left out).
\<close>

definition asAbsoluteFile :: "string \<Rightarrow> jsval + PathItem" where
  "asAbsoluteFile pathname =
     (if isAbsolutePathname pathname \<and> isResolvedPathname pathname \<and> \<not> isFolderPathname pathname
      then
        (let fullFilePathname = normalizePathname pathname;
             offset = lastIndexOf fullFilePathname NORMAL_SEPARATOR;
             fullFileName = slice fullFilePathname (offset + 1)
         in Inr (FileItem (substring fullFilePathname 0 (offset + 1)) True
                   (fst (parseFullFileName fullFileName)) (snd (parseFullFileName fullFileName))))
      else Inl (newError (''asAbsoluteFile is designed to build an AbsoluteFile with a resolvedAbsoluteFilePathname: got ''
                  @ pathname)))"

definition asAbsoluteFolder :: "string \<Rightarrow> jsval + PathItem" where
  "asAbsoluteFolder pathname =
     (if isAbsolutePathname pathname \<and> isResolvedPathname pathname \<and> isFolderPathname pathname
         \<and> pathname \<noteq> []
      then Inr (FolderItem (normalizePathname pathname) True)
      else Inl (newError (''asAbsoluteFolder is designed to build an AbsoluteFolder with a normalized resolvedAbsoluteFolderPathname: got ''
                  @ pathname)))"

section \<open>The folder walker (\<^verbatim>\<open>03-walk-folder\<close>)\<close>

text \<open>
  The file system as the walker reads it: \<open>readdir\<close> stands for \<^verbatim>\<open>readdirSync\<close> and for
  \<^verbatim>\<open>readdir\<close> with \<^verbatim>\<open>withFileTypes\<close>, \<open>stat\<close> for \<^verbatim>\<open>stat\<close>; \<open>Inl\<close> is the reason of the
  failure. An entry is a regular file, a directory or something else (a link, a socket),
  which is what \<^verbatim>\<open>isFile()\<close> and \<^verbatim>\<open>isDirectory()\<close> tell of a \<^verbatim>\<open>Dirent\<close> or a \<^verbatim>\<open>Stats\<close>.
\<close>

datatype EntryType = RegularFile | Directory | OtherEntry

record Dirent =
  name :: string
  direntType :: EntryType

record Stats =
  statsType :: EntryType
  mtime :: int

record FileSystem =
  readdir :: "string \<Rightarrow> jsval + Dirent list"
  stat :: "string \<Rightarrow> jsval + Stats"

definition doesFolderExistSync :: "FileSystem \<Rightarrow> PathItem \<Rightarrow> jsval + PathItem option" where
  "doesFolderExistSync fs absoluteFolder =
     (case readdir fs (folderPathname absoluteFolder) of
        Inr entries \<Rightarrow> Inr (Some absoluteFolder)
      | Inl reason \<Rightarrow>
          if instanceofError reason \<and> map_of (props reason) ''code'' = Some ''ENOENT''
          then Inr None
          else Inl (errorFromReason reason))"

text \<open>
  The options after the defaults are merged in (\<^verbatim>\<open>{ ...DEFAULT_FOLDER_WALKER_OPTIONS,
  ...options }\<close>); \<open>None\<close> is \<^verbatim>\<open>null\<close>.
\<close>

record FolderWalkerOptions =
  arraySortFunction :: "(Dirent \<Rightarrow> Dirent \<Rightarrow> int) option"
  arrayFilterFunction :: "(Dirent \<Rightarrow> nat \<Rightarrow> Dirent list \<Rightarrow> bool) option"
  depthLimit :: "int option"
  itemFilter :: "(string \<Rightarrow> Stats \<Rightarrow> bool) option"

definition sortFilesFirstThenAlphabetically :: "Dirent \<Rightarrow> Dirent \<Rightarrow> int" where
  "sortFilesFirstThenAlphabetically a b =
     (let isDirectoryA = (direntType a = Directory);
          isDirectoryB = (direntType b = Directory)
      in if isDirectoryA \<and> isDirectoryB then - 1 * compareStringsAscending (name a) (name b)
         else if isDirectoryA then - 1
         else if isDirectoryB then 1
         else - 1 * compareStringsAscending (name a) (name b))"

definition DEFAULT_FOLDER_WALKER_OPTIONS :: FolderWalkerOptions where
  "DEFAULT_FOLDER_WALKER_OPTIONS =
     \<lparr>arraySortFunction = Some sortFilesFirstThenAlphabetically,
      arrayFilterFunction = None,
      depthLimit = None,
      itemFilter = None\<rparr>"

text \<open>
  \<^verbatim>\<open>Array.prototype.sort\<close> with a comparator is stable, and for a comparator that is a
  consistent order its result is the sorted array whatever the algorithm; it is modelled by
  the stable insertion sort, which puts \<open>x\<close> before the first \<open>y\<close> with \<open>cmp x y \<le> 0\<close>.
  \<^verbatim>\<open>Array.prototype.filter\<close> hands the element, its index and the array to the predicate.
\<close>

fun insort_cmp :: "('a \<Rightarrow> 'a \<Rightarrow> int) \<Rightarrow> 'a \<Rightarrow> 'a list \<Rightarrow> 'a list" where
  "insort_cmp cmp x [] = [x]"
| "insort_cmp cmp x (y # ys) = (if cmp x y \<le> 0 then x # y # ys else y # insort_cmp cmp x ys)"

definition sort_js :: "('a \<Rightarrow> 'a \<Rightarrow> int) \<Rightarrow> 'a list \<Rightarrow> 'a list" where
  "sort_js cmp xs = foldr (insort_cmp cmp) xs []"

definition filter_js :: "('a \<Rightarrow> nat \<Rightarrow> 'a list \<Rightarrow> bool) \<Rightarrow> 'a list \<Rightarrow> 'a list" where
  "filter_js f xs = map fst (filter (\<lambda>(x, i). f x i xs) (zip xs [0..<length xs]))"

text \<open>
  \<^verbatim>\<open>folderWalker_NextItem\<close> pops from the end of the array until an entry stops the loop.
  The result is the item (\<open>None\<close> for \<^verbatim>\<open>null\<close>) or the reason \<^verbatim>\<open>stat\<close> failed with, and
  the array as the loop left it.
\<close>

function folderWalker_NextItem ::
  "FileSystem \<Rightarrow> string list \<Rightarrow> (string \<Rightarrow> Stats \<Rightarrow> bool) option
     \<Rightarrow> (jsval + (string \<times> Stats) option) \<times> string list" where
  "folderWalker_NextItem fs pathnames anItemFilter =
     (if pathnames = [] then (Inr None, [])
      else
        (let pathname = last pathnames;
             rest = butlast pathnames
         in case stat fs pathname of
              Inl reason \<Rightarrow> (Inl reason, rest)
            | Inr fsStats \<Rightarrow>
                if anItemFilter = None \<or> \<not> the anItemFilter pathname fsStats
                then (Inr (Some (pathname, fsStats)), rest)
                else folderWalker_NextItem fs rest anItemFilter))"
  by pat_completeness auto
termination
  by (relation "measure (\<lambda>(fs, ps, f). length ps)") auto

declare folderWalker_NextItem.simps [simp del]

record FolderWalker =
  absoluteResolvedPathnames :: "string list"
  options :: FolderWalkerOptions
  absoluteLengthLimit :: "int option"

definition newFolderWalker ::
  "FileSystem \<Rightarrow> PathItem \<Rightarrow> FolderWalkerOptions \<Rightarrow> jsval + FolderWalker" where
  \<comment> \<open>the constructor; \<open>None\<close> for the limit is \<^verbatim>\<open>null\<close>, or \<^verbatim>\<open>undefined\<close> when the folder
      does not exist\<close>
  "newFolderWalker fs absoluteFolder opts =
     (case doesFolderExistSync fs absoluteFolder of
        Inl err \<Rightarrow> Inl err
      | Inr (Some folder) \<Rightarrow>
          (let rootDirectoryPathname = folderPathname absoluteFolder
           in Inr \<lparr>absoluteResolvedPathnames = [rootDirectoryPathname],
                   options = opts,
                   absoluteLengthLimit =
                     (case depthLimit opts of
                        Some limit \<Rightarrow>
                          if limit > - 1
                          then Some (int (length (split_js rootDirectoryPathname NORMAL_SEPARATOR)) + limit)
                          else None
                      | None \<Rightarrow> None)\<rparr>)
      | Inr None \<Rightarrow>
          Inr \<lparr>absoluteResolvedPathnames = [], options = opts, absoluteLengthLimit = None\<rparr>)"

definition walkFolder ::
  "FileSystem \<Rightarrow> PathItem \<Rightarrow> FolderWalkerOptions \<Rightarrow> jsval + FolderWalker" where
  "walkFolder fs absoluteFolder opts = newFolderWalker fs absoluteFolder opts"

definition pushDirent :: "string \<Rightarrow> string list \<Rightarrow> Dirent \<Rightarrow> string list" where
  \<comment> \<open>the body of the \<^verbatim>\<open>forEach\<close> over the entries of a directory\<close>
  "pushDirent pathname stack fsDirent =
     (let absoluteResolvedPathname = join pathname (name fsDirent)
      in if direntType fsDirent = RegularFile then stack @ [absoluteResolvedPathname]
         else if direntType fsDirent = Directory then
           (if \<not> endsWith absoluteResolvedPathname sep
            then stack @ [absoluteResolvedPathname @ [sep]]
            else stack @ [absoluteResolvedPathname])
         else stack)"

definition processDirents :: "FolderWalkerOptions \<Rightarrow> Dirent list \<Rightarrow> Dirent list" where
  \<comment> \<open>the entries read, filtered and then sorted as the options say\<close>
  "processDirents opts fsDirents =
     (let processedFsDirents =
            (case arrayFilterFunction opts of Some f \<Rightarrow> filter_js f fsDirents | None \<Rightarrow> fsDirents)
      in case arraySortFunction opts of
           Some cmp \<Rightarrow> sort_js cmp processedFsDirents
         | None \<Rightarrow> processedFsDirents)"

text \<open>
  What one call of \<^verbatim>\<open>_read\<close> does to the stream: it pushes an item, or pushes an item and
  destroys the stream with an error, or destroys it, or ends it with \<^verbatim>\<open>push(null)\<close>. An
  error thrown inside the callback of \<^verbatim>\<open>readdir\<close> is caught by nobody, and an entry that
  is neither a file nor a directory leads to no push at all.
\<close>

datatype ReadEvent =
    Pushed PathItem
  | PushedThenDestroyed PathItem jsval
  | Destroyed jsval
  | Ended
  | Uncaught jsval
  | NothingPushed

definition pushOrDestroy :: "jsval + PathItem \<Rightarrow> ReadEvent" where
  \<comment> \<open>\<^verbatim>\<open>this.push(asAbsolute...(pathname))\<close> inside the \<^verbatim>\<open>then\<close> callback, whose errors go to
      \<^verbatim>\<open>catch\<close>\<close>
  "pushOrDestroy r = (case r of Inl err \<Rightarrow> Destroyed (errorFromReason err) | Inr item \<Rightarrow> Pushed item)"

definition read :: "FileSystem \<Rightarrow> FolderWalker \<Rightarrow> ReadEvent \<times> FolderWalker" where
  "read fs w =
     (case folderWalker_NextItem fs (absoluteResolvedPathnames w) (itemFilter (options w)) of
        (Inl reason, stack) \<Rightarrow>
          (Destroyed (errorFromReason reason), w\<lparr>absoluteResolvedPathnames := stack\<rparr>)
      | (Inr None, stack) \<Rightarrow> (Ended, w\<lparr>absoluteResolvedPathnames := stack\<rparr>)
      | (Inr (Some (pathname, fsStats)), stack) \<Rightarrow>
          if statsType fsStats = RegularFile then
            (pushOrDestroy (asAbsoluteFile pathname), w\<lparr>absoluteResolvedPathnames := stack\<rparr>)
          else if statsType fsStats = Directory then
            (if (case absoluteLengthLimit w of
                   Some limit \<Rightarrow> int (length (split_js pathname sep)) > limit
                 | None \<Rightarrow> False)
             then (pushOrDestroy (asAbsoluteFolder pathname), w\<lparr>absoluteResolvedPathnames := stack\<rparr>)
             else
               (case readdir fs pathname of
                  Inl maybeError \<Rightarrow>
                    (case asAbsoluteFolder pathname of
                       Inl err \<Rightarrow> Uncaught err
                     | Inr item \<Rightarrow> PushedThenDestroyed item maybeError,
                     w\<lparr>absoluteResolvedPathnames := stack\<rparr>)
                | Inr fsDirents \<Rightarrow>
                    (case asAbsoluteFolder pathname of
                       Inl err \<Rightarrow> Uncaught err
                     | Inr item \<Rightarrow> Pushed item,
                     w\<lparr>absoluteResolvedPathnames :=
                         foldl (pushDirent pathname) stack (processDirents (options w) fsDirents)\<rparr>)))
          else (NothingPushed, w\<lparr>absoluteResolvedPathnames := stack\<rparr>))"

text \<open>
  The stream calls \<^verbatim>\<open>_read\<close> again after each item pushed, until it is ended or destroyed.
  \<open>enumerate_items n\<close> makes at most \<open>n\<close> calls; it gives the items in the order they are
  pushed, and the event that stopped the stream (\<open>None\<close> when the \<open>n\<close> calls did not reach
  it). An item pushed just before the stream is destroyed counts as delivered, which is what
  a consumer listening to \<^verbatim>\<open>data\<close> events sees.
\<close>

fun enumerate_items :: "nat \<Rightarrow> FileSystem \<Rightarrow> FolderWalker \<Rightarrow> PathItem list \<times> ReadEvent option" where
  "enumerate_items 0 fs w = ([], None)"
| "enumerate_items (Suc n) fs w =
     (case read fs w of
        (Pushed item, w') \<Rightarrow> (item # fst (enumerate_items n fs w'), snd (enumerate_items n fs w'))
      | (PushedThenDestroyed item err, w') \<Rightarrow> ([item], Some (PushedThenDestroyed item err))
      | (ev, w') \<Rightarrow> ([], Some ev))"

subsection \<open>\<^verbatim>\<open>makeTestFileChecker\<close> of the command line runner\<close>

definition makeTestFileChecker :: "int \<Rightarrow> int \<Rightarrow> string \<Rightarrow> Stats \<Rightarrow> bool" where
  "makeTestFileChecker time maxExecutionAge pathname fsStats =
     (statsType fsStats = RegularFile \<and> time - mtime fsStats \<ge> maxExecutionAge)"

section \<open>Notions used to state the properties\<close>

text \<open>
  The delay of the timer a call is raced against (\<^verbatim>\<open>testCall.timeoutDuration ?? defaultDelay\<close>
  with the default of \<^verbatim>\<open>run\<close>); \<open>timeoutElapsesFirst\<close>: the timer fires strictly before the
  call settles; \<open>failsWith\<close>: the call throws, or rejects strictly before the timer fires,
  and \<open>reason\<close> is what \<^verbatim>\<open>onRejected\<close> receives.
\<close>

definition timeoutOf :: "TestCall \<Rightarrow> nat" where
  "timeoutOf tc = (case timeoutDuration tc of Some d \<Rightarrow> d | None \<Rightarrow> DEFAULT_TIMEOUT_DURATION)"

definition timeoutElapsesFirst :: "TestCall \<Rightarrow> bool" where
  "timeoutElapsesFirst tc =
     (case fn tc (inputs tc) of
        Returns v \<Rightarrow> False
      | Throws reason \<Rightarrow> False
      | ResolvesAfter d v \<Rightarrow> timerDelay (timeoutOf tc) < d
      | RejectsAfter d reason \<Rightarrow> timerDelay (timeoutOf tc) < d
      | NeverSettles \<Rightarrow> True)"

definition failsWith :: "TestCall \<Rightarrow> jsval \<Rightarrow> bool" where
  "failsWith tc reason =
     (case fn tc (inputs tc) of
        Throws thrown \<Rightarrow> reason = errorFromReason thrown
      | RejectsAfter d rejected \<Rightarrow> d < timerDelay (timeoutOf tc) \<and> reason = rejected
      | _ \<Rightarrow> False)"

text \<open>
  Pathnames as \<^verbatim>\<open>path.resolve\<close> gives them. A plain name is what a directory entry is
  called: not empty, no separator in it, neither \<^verbatim>\<open>.\<close> nor \<^verbatim>\<open>..\<close>; a plain folder name
  moreover does not end with a dot, so that no \<^verbatim>\<open>./\<close> arises after it.
  \<open>folderPathnameOf segs\<close> is the absolute folder pathname with the segments \<open>segs\<close>.
\<close>

definition plainName :: "string \<Rightarrow> bool" where
  "plainName s =
     (s \<noteq> [] \<and> CHR ''/'' \<notin> set s \<and> CHR 0x5C \<notin> set s \<and> s \<noteq> ''.'' \<and> s \<noteq> ''..'')"

definition plainFolderName :: "string \<Rightarrow> bool" where
  "plainFolderName s = (plainName s \<and> last s \<noteq> CHR ''.'')"

definition folderPathnameOf :: "string list \<Rightarrow> string" where
  "folderPathnameOf segs = CHR ''/'' # concat (map (\<lambda>s. s @ ''/'') segs)"

text \<open>
  The pathname that the \<^verbatim>\<open>forEach\<close> of \<^verbatim>\<open>_read\<close> pushes for an entry of the directory
  \<open>pathname\<close>, and the entries it pushes one for.
\<close>

definition childPathname :: "string \<Rightarrow> Dirent \<Rightarrow> string" where
  "childPathname pathname fsDirent =
     (if direntType fsDirent = Directory \<and> \<not> endsWith (join pathname (name fsDirent)) sep
      then join pathname (name fsDirent) @ [sep]
      else join pathname (name fsDirent))"

definition isPushed :: "Dirent \<Rightarrow> bool" where
  "isPushed fsDirent = (direntType fsDirent = RegularFile \<or> direntType fsDirent = Directory)"

text \<open>The item that an entry of the folder \<open>folder\<close> is emitted as when it is a leaf.\<close>

definition childItem :: "string \<Rightarrow> Dirent \<Rightarrow> PathItem" where
  "childItem folder fsDirent =
     (if direntType fsDirent = RegularFile
      then FileItem folder True (fst (parseFullFileName (name fsDirent)))
             (snd (parseFullFileName (name fsDirent)))
      else FolderItem (folder @ name fsDirent @ ''/'') True)"

text \<open>
  The order in which the comparator \<^verbatim>\<open>sortFilesFirstThenAlphabetically\<close> arranges entries
  with non-empty names: directories first, and names descending within each group.
\<close>

definition sortsBefore :: "Dirent \<Rightarrow> Dirent \<Rightarrow> bool" where
  "sortsBefore a b =
     ((direntType a = Directory \<and> direntType b \<noteq> Directory) \<or>
      ((direntType a = Directory) = (direntType b = Directory) \<and> name b \<le> name a))"

text \<open>
  A file tree: a file, something else (a link, a socket), or a folder with its entries by
  name, in the order \<open>readdir\<close> lists them. \<open>mirrors fs segs t\<close>: the file system \<open>fs\<close> holds
  the tree \<open>t\<close> at the pathname with the segments \<open>segs\<close>, that is \<open>stat\<close> and \<open>readdir\<close>
  answer there and below as \<open>t\<close> says, and the names are plain and distinct within a
  folder. \<open>items segs t\<close> is the pre-order listing of \<open>t\<close>, each folder before its entries
  and the entries in the reverse of the order in which \<^verbatim>\<open>sortFilesFirstThenAlphabetically\<close>
  sorts them. \<open>pathOf\<close> is the pathname of the node, and \<open>walkerOn stack\<close> a walker with the
  default options in the middle of an enumeration.
\<close>

datatype tree = File | Other | Folder "(string \<times> tree) list"

fun kind :: "tree \<Rightarrow> EntryType" where
  "kind File = RegularFile"
| "kind Other = OtherEntry"
| "kind (Folder children) = Directory"

definition entry :: "string \<times> tree \<Rightarrow> Dirent" where
  "entry c = \<lparr>name = fst c, direntType = kind (snd c)\<rparr>"

fun mirrors :: "FileSystem \<Rightarrow> string list \<Rightarrow> tree \<Rightarrow> bool" where
  "mirrors fs segs File =
     (\<exists>st. stat fs (butlast (folderPathnameOf segs)) = Inr st \<and> statsType st = RegularFile)"
| "mirrors fs segs Other = True"
| "mirrors fs segs (Folder children) =
     ((\<exists>st. stat fs (folderPathnameOf segs) = Inr st \<and> statsType st = Directory) \<and>
      readdir fs (folderPathnameOf segs) = Inr (map entry children) \<and>
      distinct (map fst children) \<and>
      (\<forall>c \<in> set children.
         plainName (fst c) \<and>
         (kind (snd c) = Directory \<longrightarrow> plainFolderName (fst c)) \<and>
         mirrors fs (segs @ [fst c]) (snd c)))"

fun items :: "string list \<Rightarrow> tree \<Rightarrow> PathItem list" where
  "items segs File =
     [FileItem (folderPathnameOf (butlast segs)) True
        (fst (parseFullFileName (last segs))) (snd (parseFullFileName (last segs)))]"
| "items segs Other = []"
| "items segs (Folder children) =
     FolderItem (folderPathnameOf segs) True
       # concat (map snd
           (rev (filter (\<lambda>p. isPushed (entry (fst p)))
              (sort_js (\<lambda>a b. sortFilesFirstThenAlphabetically (entry (fst a)) (entry (fst b)))
                 (map (\<lambda>c. (c, items (segs @ [fst c]) (snd c))) children)))))"


definition pathOf :: "string list \<Rightarrow> tree \<Rightarrow> string" where
  "pathOf segs t =
     (case t of Folder children \<Rightarrow> folderPathnameOf segs | _ \<Rightarrow> butlast (folderPathnameOf segs))"

definition walkerOn :: "string list \<Rightarrow> FolderWalker" where
  "walkerOn stack =
     \<lparr>absoluteResolvedPathnames = stack,
      options = DEFAULT_FOLDER_WALKER_OPTIONS,
      absoluteLengthLimit = None\<rparr>"

section \<open>Example inputs\<close>

text \<open>
  Three calls of which the second is registered with \<^verbatim>\<open>stopPast(10, ...)\<close> and takes 50
  milliseconds; three calls of which the first is timeboxed and the second never settles;
  a call that throws a \<^verbatim>\<open>RangeError\<close>, expected to throw one, expected to throw one with
  another message, and expected to throw one with the same message; a call that throws an
  error whose properties were added in another order than those of the expected error; a
  call that returns an object whose properties were added in another order than those of
  the expected value; a
  call that throws \<^verbatim>\<open>undefined\<close>, expected to throw \<^verbatim>\<open>new Error('')\<close>; a call whose expectation
  is an arrow function; a call that rejects with \<^verbatim>\<open>null\<close>, followed by another call; one
  record in each state.
\<close>

definition threeCallsSecondSlow :: TestCallSupervisor where
  "threeCallsSecondSlow =
     (let s0 = makeTestCallSupervisor;
          (sp1, s1) = call (\<lambda>vs. Returns (JNumber 1)) [] s0;
          s1 = equals sp1 (JNumber 1) s1;
          (sp2, s2) = stopPast 10 (\<lambda>vs. ResolvesAfter 50 (JNumber 2)) [] s1;
          s2 = equals sp2 (JNumber 2) s2;
          (sp3, s3) = call (\<lambda>vs. Returns (JNumber 3)) [] s2
      in equals sp3 (JNumber 3) s3)"

definition firstTimeboxedSecondHangs :: TestCallSupervisor where
  "firstTimeboxedSecondHangs =
     (let s0 = makeTestCallSupervisor;
          (sp1, s1) = stopPast 50 (\<lambda>vs. Returns (JNumber 1)) [] s0;
          s1 = equals sp1 (JNumber 1) s1;
          (sp2, s2) = call (\<lambda>vs. NeverSettles) [] s1;
          s2 = equals sp2 (JNumber 2) s2;
          (sp3, s3) = call (\<lambda>vs. Returns (JNumber 3)) [] s2
      in equals sp3 (JNumber 3) s3)"


definition throwsRangeError :: TestCallExecution where
  "throwsRangeError =
     initializeTestCallExecution (makeErrorTestCallResult (JFunction ''RangeError''))
       (makeTestCallSpecifier None (\<lambda>vs. Throws (newErrorOf ''RangeError'' ''out of range'')) [])"

definition throwsOtherMessage :: TestCallExecution where
  "throwsOtherMessage =
     initializeTestCallExecution
       (makeErrorTestCallResult (newErrorOf ''RangeError'' ''too large''))
       (makeTestCallSpecifier None (\<lambda>vs. Throws (newErrorOf ''RangeError'' ''out of range'')) [])"

definition throwsSameError :: TestCallExecution where
  "throwsSameError =
     initializeTestCallExecution
       (makeErrorTestCallResult (newErrorOf ''RangeError'' ''out of range''))
       (makeTestCallSpecifier None (\<lambda>vs. Throws (newErrorOf ''RangeError'' ''out of range'')) [])"

definition throwsReordered :: TestCallExecution where
  "throwsReordered =
     initializeTestCallExecution
       (makeErrorTestCallResult
          (JObject [''Error'', ''Object'']
             [(''message'', ''no such file''), (''code'', ''ENOENT''), (''path'', ''/x'')]))
       (makeTestCallSpecifier None
          (\<lambda>vs. Throws (JObject [''Error'', ''Object'']
                          [(''path'', ''/x''), (''message'', ''no such file''), (''code'', ''ENOENT'')]))
          [])"

definition returnsReordered :: TestCallExecution where
  "returnsReordered =
     initializeTestCallExecution
       (makeNormalTestCallResult (JObject [''Object''] [(''x'', ''1''), (''y'', ''2'')]))
       (makeTestCallSpecifier None
          (\<lambda>vs. Returns (JObject [''Object''] [(''y'', ''2''), (''x'', ''1'')])) [])"

definition throwsUndefined :: TestCallExecution where
  "throwsUndefined =
     initializeTestCallExecution
       (makeErrorTestCallResult (newError []))
       (makeTestCallSpecifier None (\<lambda>vs. Throws JUndefined) [])"

definition expectsArrow :: TestCallExecution where
  "expectsArrow =
     initializeTestCallExecution
       (makeErrorTestCallResult (JArrow ''isRangeError''))
       (makeTestCallSpecifier None (\<lambda>vs. Throws (newErrorOf ''RangeError'' ''out of range'')) [])"

definition rejectsWithNull :: "TestCallExecution list" where
  "rejectsWithNull =
     [initializeTestCallExecution (makeErrorTestCallResult (JFunction ''Error''))
        (makeTestCallSpecifier None (\<lambda>vs. RejectsAfter 5 JNull) []),
      initializeTestCallExecution (makeNormalTestCallResult (JNumber 1))
        (makeTestCallSpecifier None (\<lambda>vs. Returns (JNumber 1)) [])]"

definition statisticsExample :: "TestCallExecution list" where
  "statisticsExample =
     (let e = initializeTestCallExecution (makeNormalTestCallResult (JNumber 1))
                (makeTestCallSpecifier None (\<lambda>vs. Returns (JNumber 1)) [])
      in [e,
          e\<lparr>testExecutionStatus := CANCELLED_EXECUTION, cancelError := Some (timeoutError 200)\<rparr>,
          e\<lparr>testExecutionStatus := SKIPPED_EXECUTION\<rparr>,
          e\<lparr>testExecutionStatus := DONE_EXECUTION, passed := True,
            obtained := Some (makeNormalTestCallResult (JNumber 1))\<rparr>,
          e\<lparr>testExecutionStatus := DONE_EXECUTION, passed := False,
            obtained := Some (makeNormalTestCallResult (JNumber 2))\<rparr>])"

text \<open>
  A file system with the folder \<^verbatim>\<open>/r/\<close> that holds the file \<^verbatim>\<open>a.txt\<close> and the empty folder
  \<^verbatim>\<open>b/\<close>; one with two files of different ages; a walker in the middle of an enumeration.
\<close>

definition dirStats :: Stats where
  "dirStats = \<lparr>statsType = Directory, mtime = 0\<rparr>"

definition fileStats :: Stats where
  "fileStats = \<lparr>statsType = RegularFile, mtime = 0\<rparr>"

definition enoent :: jsval where
  "enoent =
     JObject [''Error'', ''Object'']
       [(''message'', ''ENOENT: no such file or directory''), (''code'', ''ENOENT'')]"

definition exampleFs :: FileSystem where
  "exampleFs =
     \<lparr>readdir = (\<lambda>p. if p = ''/r/''
                     then Inr [\<lparr>name = ''b'', direntType = Directory\<rparr>,
                               \<lparr>name = ''a.txt'', direntType = RegularFile\<rparr>]
                     else if p = ''/r/b/'' then Inr []
                     else Inl enoent),
      stat = (\<lambda>p. if p = ''/r/'' \<or> p = ''/r/b/'' then Inr dirStats
                  else if p = ''/r/a.txt'' then Inr fileStats
                  else Inl enoent)\<rparr>"

definition agedFs :: FileSystem where
  "agedFs =
     \<lparr>readdir = (\<lambda>p. if p = ''/t/''
                     then Inr [\<lparr>name = ''old.js'', direntType = RegularFile\<rparr>,
                               \<lparr>name = ''new.js'', direntType = RegularFile\<rparr>]
                     else Inl enoent),
      stat = (\<lambda>p. if p = ''/t/'' then Inr dirStats
                  else if p = ''/t/old.js'' then Inr \<lparr>statsType = RegularFile, mtime = 1000\<rparr>
                  else if p = ''/t/new.js'' then Inr \<lparr>statsType = RegularFile, mtime = 9000\<rparr>
                  else Inl enoent)\<rparr>"

definition walkerAt :: "string list \<Rightarrow> (string \<Rightarrow> Stats \<Rightarrow> bool) option \<Rightarrow> FolderWalker" where
  "walkerAt stack f =
     \<lparr>absoluteResolvedPathnames = stack,
      options = DEFAULT_FOLDER_WALKER_OPTIONS\<lparr>itemFilter := f\<rparr>,
      absoluteLengthLimit = None\<rparr>"

definition rejectEverything :: "string \<Rightarrow> Stats \<Rightarrow> bool" where
  "rejectEverything pathname fsStats = False"

definition acceptEverything :: "string \<Rightarrow> Stats \<Rightarrow> bool" where
  "acceptEverything pathname fsStats = True"

text \<open>
  The walker that \<^verbatim>\<open>walkFolder\<close> builds for \<^verbatim>\<open>/r/\<close> with the default options, and with a depth
  limit of 0; a file system in which the folder \<^verbatim>\<open>/r/b/\<close> holds a file.
\<close>

definition exampleWalker :: FolderWalker where
  "exampleWalker =
     \<lparr>absoluteResolvedPathnames = [''/r/''],
      options = DEFAULT_FOLDER_WALKER_OPTIONS,
      absoluteLengthLimit = None\<rparr>"

definition deepFs :: FileSystem where
  "deepFs =
     \<lparr>readdir = (\<lambda>p. if p = ''/r/''
                     then Inr [\<lparr>name = ''b'', direntType = Directory\<rparr>,
                               \<lparr>name = ''a.txt'', direntType = RegularFile\<rparr>]
                     else if p = ''/r/b/'' then Inr [\<lparr>name = ''c.txt'', direntType = RegularFile\<rparr>]
                     else Inl enoent),
      stat = (\<lambda>p. if p = ''/r/'' \<or> p = ''/r/b/'' then Inr dirStats
                  else if p = ''/r/a.txt'' \<or> p = ''/r/b/c.txt'' then Inr fileStats
                  else Inl enoent)\<rparr>"

definition shallowWalker :: FolderWalker where
  "shallowWalker =
     \<lparr>absoluteResolvedPathnames = [''/r/''],
      options = DEFAULT_FOLDER_WALKER_OPTIONS\<lparr>depthLimit := Some 0\<rparr>,
      absoluteLengthLimit = Some 3\<rparr>"

text \<open>
  The same file system, reached the way an operating system reaches it: a run of separators
  in a pathname stands for one, so that \<^verbatim>\<open>/r//\<close> is the folder \<^verbatim>\<open>/r/\<close>. The walker that
  \<^verbatim>\<open>walkFolder\<close> builds for \<^verbatim>\<open>/r//\<close> with a depth limit of 0.
\<close>

definition lenientFs :: FileSystem where
  "lenientFs =
     \<lparr>readdir = (\<lambda>p. readdir deepFs (path_normalize p)),
      stat = (\<lambda>p. stat deepFs (path_normalize p))\<rparr>"

definition doubledWalker :: FolderWalker where
  "doubledWalker =
     \<lparr>absoluteResolvedPathnames = [''/r//''],
      options = DEFAULT_FOLDER_WALKER_OPTIONS\<lparr>depthLimit := Some 0\<rparr>,
      absoluteLengthLimit = Some 4\<rparr>"

text \<open>
  A folder with two files, two folders and a link, listed in no particular order; one of
  the folders holds a file.
\<close>

definition mixedChildren :: "(string \<times> tree) list" where
  "mixedChildren =
     [(''b.txt'', File), (''d'', Folder []), (''z.lnk'', Other), (''a.txt'', File),
      (''c'', Folder [(''x.txt'', File)])]"

definition mixedFs :: FileSystem where
  "mixedFs =
     \<lparr>readdir = (\<lambda>p. if p = ''/m/''
                     then Inr [\<lparr>name = ''b.txt'', direntType = RegularFile\<rparr>,
                               \<lparr>name = ''d'', direntType = Directory\<rparr>,
                               \<lparr>name = ''z.lnk'', direntType = OtherEntry\<rparr>,
                               \<lparr>name = ''a.txt'', direntType = RegularFile\<rparr>,
                               \<lparr>name = ''c'', direntType = Directory\<rparr>]
                     else if p = ''/m/c/'' then Inr [\<lparr>name = ''x.txt'', direntType = RegularFile\<rparr>]
                     else if p = ''/m/d/'' then Inr []
                     else Inl enoent),
      stat = (\<lambda>p. if p = ''/m/'' \<or> p = ''/m/c/'' \<or> p = ''/m/d/'' then Inr dirStats
                  else if p = ''/m/a.txt'' \<or> p = ''/m/b.txt'' \<or> p = ''/m/c/x.txt''
                  then Inr fileStats
                  else Inl enoent)\<rparr>"

definition mixedWalker :: FolderWalker where
  "mixedWalker =
     \<lparr>absoluteResolvedPathnames = [''/m/''],
      options = DEFAULT_FOLDER_WALKER_OPTIONS,
      absoluteLengthLimit = None\<rparr>"

section \<open>Properties of the test engine\<close>

subsection \<open>Statistics\<close>

lemma addTestExecution_counts:
  "addTestExecution e st =
     \<lparr>ok = ok st + (if testExecutionStatus e = DONE_EXECUTION \<and> passed e then 1 else 0),
      ko = ko st + (if \<not> (testExecutionStatus e = DONE_EXECUTION \<and> passed e)
                       \<and> testExecutionStatus e \<noteq> SKIPPED_EXECUTION then 1 else 0),
      skipped = skipped st + (if testExecutionStatus e = SKIPPED_EXECUTION then 1 else 0),
      total = total st + 1\<rparr>"
  by (cases st) (simp add: addTestExecution_def)

lemma foldl_addTestExecution:
  "foldl (\<lambda>st e. addTestExecution e st) st xs =
     \<lparr>ok = ok st + length (filter (\<lambda>e. testExecutionStatus e = DONE_EXECUTION \<and> passed e) xs),
      ko = ko st + length (filter (\<lambda>e. \<not> (testExecutionStatus e = DONE_EXECUTION \<and> passed e)
                                      \<and> testExecutionStatus e \<noteq> SKIPPED_EXECUTION) xs),
      skipped = skipped st + length (filter (\<lambda>e. testExecutionStatus e = SKIPPED_EXECUTION) xs),
      total = total st + length xs\<rparr>"
proof (induction xs arbitrary: st)
  case Nil
  then show ?case by (cases st) simp
next
  case (Cons x xs)
  show ?case
    unfolding foldl_Cons Cons.IH
    by (simp add: addTestExecution_counts)
qed

lemma length_filter_partition3:
  "length (filter (\<lambda>e. P e) xs) + length (filter (\<lambda>e. \<not> P e \<and> \<not> Q e) xs)
     + length (filter (\<lambda>e. \<not> P e \<and> Q e) xs) = length xs"
  by (induction xs) auto

text \<open>
  Claim C7. For every list of execution records, the statistics computed from it satisfy
  \<open>ok + ko + skipped = total\<close> and \<open>total\<close> is the number of records; a record counts
  toward \<open>ok\<close> iff it is done and passed, toward \<open>skipped\<close> iff it is skipped, and toward
  \<open>ko\<close> otherwise, which includes every initialized, cancelled and done-but-failed record.
\<close>

theorem statistics_partition:
  "ok (makeTestExecutionStatistics xs) + ko (makeTestExecutionStatistics xs)
       + skipped (makeTestExecutionStatistics xs) = total (makeTestExecutionStatistics xs) \<and>
   total (makeTestExecutionStatistics xs) = length xs \<and>
   ok (makeTestExecutionStatistics xs) =
     length (filter (\<lambda>e. testExecutionStatus e = DONE_EXECUTION \<and> passed e) xs) \<and>
   skipped (makeTestExecutionStatistics xs) =
     length (filter (\<lambda>e. testExecutionStatus e = SKIPPED_EXECUTION) xs) \<and>
   ko (makeTestExecutionStatistics xs) =
     length (filter (\<lambda>e. \<not> (testExecutionStatus e = DONE_EXECUTION \<and> passed e)
                        \<and> testExecutionStatus e \<noteq> SKIPPED_EXECUTION) xs)"
proof -
  let ?P = "\<lambda>e. testExecutionStatus e = DONE_EXECUTION \<and> passed e"
  let ?Q = "\<lambda>e. testExecutionStatus e = SKIPPED_EXECUTION"
  have eq: "(\<lambda>e. \<not> ?P e \<and> ?Q e) = ?Q" by auto
  have "length (filter ?P xs) + length (filter (\<lambda>e. \<not> ?P e \<and> \<not> ?Q e) xs)
          + length (filter ?Q xs) = length xs"
    using length_filter_partition3 [of ?P xs ?Q] by (simp only: eq)
  then show ?thesis
    by (simp add: makeTestExecutionStatistics_def foldl_addTestExecution
        newTestExecutionStatistics_def)
qed

theorem statistics_partition_witness:
  "ok (makeTestExecutionStatistics statisticsExample) = 1 \<and>
   ko (makeTestExecutionStatistics statisticsExample) = 3 \<and>
   skipped (makeTestExecutionStatistics statisticsExample) = 1 \<and>
   total (makeTestExecutionStatistics statisticsExample) = 5"
  using statistics_partition [of statisticsExample]
  by (simp add: statisticsExample_def Let_def initializeTestCallExecution_def)

subsection \<open>Steps of the run\<close>

lemma length_executeNextTestCall [simp]:
  "length (executeNextTestCall xs d s k) = length xs"
proof (induction xs d s k rule: executeNextTestCall.induct)
  case (1 xs d s k)
  show ?case
    using 1 by (subst executeNextTestCall.simps) auto
qed

lemma onRejected_continues:
  "snd (onRejected reason h e) = ExecuteNextTestCall \<Longrightarrow>
     testExecutionStatus (fst (onRejected reason h e)) = DONE_EXECUTION"
  by (auto simp: onRejected_def compareWithObtainedError_def Let_def cancelTestCallExecution_def
      split: if_splits option.splits sum.splits prod.splits)

lemma executeTestCall_continues:
  "snd (executeTestCall e d) = ExecuteNextTestCall \<Longrightarrow>
     testExecutionStatus (fst (executeTestCall e d)) = DONE_EXECUTION"
  by (auto simp: executeTestCall_def Let_def onFulfilled_def compareWithObtainedValue_def
      onRejected_continues split: settlement.splits)

lemma instanceofError_timeoutError [simp]: "instanceofError (timeoutError t)"
  by (simp add: timeoutError_def newError_def instanceofError_def)

lemma executeTestCall_timeout:
  assumes "timeoutElapsesFirst (testCall e)"
  shows "executeTestCall e DEFAULT_TIMEOUT_DURATION =
           (e\<lparr>testExecutionStatus := CANCELLED_EXECUTION,
              cancelError := Some (timeoutError (timeoutOf (testCall e)))\<rparr>,
            CancelExecution)"
  using assms
  by (auto simp: timeoutElapsesFirst_def timeoutOf_def executeTestCall_def Let_def race_def
      promisedTestResult_def onRejected_def cancelTestCallExecution_def
      split: behaviour.splits)

lemma executeNextTestCall_cancel:
  assumes "k < length xs"
    and "timeoutDuration (testCall (xs ! k)) = None \<or> \<not> skip"
    and "snd (executeTestCall (xs ! k) d) = CancelExecution"
  shows "executeNextTestCall xs d skip k = xs[k := fst (executeTestCall (xs ! k) d)]"
  using assms by (subst executeNextTestCall.simps) auto

lemma executeNextTestCall_next:
  assumes "k < length xs"
    and "timeoutDuration (testCall (xs ! k)) = None \<or> \<not> skip"
    and "snd (executeTestCall (xs ! k) d) = ExecuteNextTestCall"
  shows "executeNextTestCall xs d skip k =
           executeNextTestCall (xs[k := fst (executeTestCall (xs ! k) d)]) d skip (Suc k)"
  using assms by (subst executeNextTestCall.simps) auto

lemma executeNextTestCall_skip:
  assumes "k < length xs"
    and "timeoutDuration (testCall (xs ! k)) \<noteq> None" and "skip"
  shows "executeNextTestCall xs d skip k =
           executeNextTestCall (xs[k := (xs ! k)\<lparr>testExecutionStatus := SKIPPED_EXECUTION\<rparr>])
             d skip (Suc k)"
  using assms by (subst executeNextTestCall.simps) auto

subsection \<open>A timeout aborts the run\<close>

text \<open>
  Claim C1, as amended. Take a run over at least three freshly registered calls, in which
  the first call hands over to the second (it is skipped, or it is executed and its record is
  finalized), and the second call is executed and its timer fires before it settles. Then
  \<^verbatim>\<open>run()\<close> resolves with the first record skipped when \<^verbatim>\<open>skipTimeboxedTests\<close> is set and the
  first call has a timeout of its own, and done otherwise; the second record is cancelled
  with the timeout error; the third and every later record is the record that was
  registered, still initialized.
\<close>

theorem timeout_aborts_remaining_run:
  assumes idle: "\<not> running s"
    and three: "3 \<le> length (testCallExecutions s)"
    and fresh: "\<forall>e \<in> set (testCallExecutions s). testExecutionStatus e = INITIALIZED_EXECUTION"
    and first: "(timeoutDuration (testCall (testCallExecutions s ! 0)) \<noteq> None
                   \<and> skipTimeboxedTests opts)
                \<or> snd (executeTestCall (testCallExecutions s ! 0) DEFAULT_TIMEOUT_DURATION)
                    = ExecuteNextTestCall"
    and second_executed: "timeoutDuration (testCall (testCallExecutions s ! 1)) = None
                            \<or> \<not> skipTimeboxedTests opts"
    and second_times_out: "timeoutElapsesFirst (testCall (testCallExecutions s ! 1))"
  shows "\<exists>r. fst (run opts s) = Inr r \<and> length r = length (testCallExecutions s) \<and>
           testExecutionStatus (r ! 0) =
             (if timeoutDuration (testCall (testCallExecutions s ! 0)) \<noteq> None
                   \<and> skipTimeboxedTests opts
              then SKIPPED_EXECUTION else DONE_EXECUTION) \<and>
           testExecutionStatus (r ! 1) = CANCELLED_EXECUTION \<and>
           cancelError (r ! 1) =
             Some (timeoutError (timeoutOf (testCall (testCallExecutions s ! 1)))) \<and>
           (\<forall>k. 2 \<le> k \<and> k < length r \<longrightarrow>
              r ! k = testCallExecutions s ! k \<and>
              testExecutionStatus (r ! k) = INITIALIZED_EXECUTION)"
proof -
  let ?xs = "testCallExecutions s"
  let ?d = "DEFAULT_TIMEOUT_DURATION"
  let ?skip = "skipTimeboxedTests opts"
  let ?firstSkipped = "timeoutDuration (testCall (?xs ! 0)) \<noteq> None \<and> ?skip"
  define e0 where "e0 = (if ?firstSkipped then (?xs ! 0)\<lparr>testExecutionStatus := SKIPPED_EXECUTION\<rparr>
                         else fst (executeTestCall (?xs ! 0) ?d))"
  define e1 where "e1 = (?xs ! 1)\<lparr>testExecutionStatus := CANCELLED_EXECUTION,
              cancelError := Some (timeoutError (timeoutOf (testCall (?xs ! 1))))\<rparr>"
  have len: "0 < length ?xs" "1 < length ?xs" using three by auto
  have step0: "executeNextTestCall ?xs ?d ?skip 0 = executeNextTestCall (?xs[0 := e0]) ?d ?skip (Suc 0)"
  proof (cases ?firstSkipped)
    case True
    then show ?thesis
      using executeNextTestCall_skip [of 0 ?xs ?skip ?d] len by (simp add: e0_def)
  next
    case False
    with first have "snd (executeTestCall (?xs ! 0) ?d) = ExecuteNextTestCall" by blast
    with False show ?thesis
      using executeNextTestCall_next [of 0 ?xs ?skip ?d] len by (auto simp: e0_def)
  qed
  have at1: "(?xs[0 := e0]) ! 1 = ?xs ! 1" by simp
  have ex1: "executeTestCall (?xs ! 1) ?d = (e1, CancelExecution)"
    using executeTestCall_timeout [OF second_times_out] by (simp add: e1_def)
  have step1: "executeNextTestCall (?xs[0 := e0]) ?d ?skip (Suc 0) = ?xs[0 := e0, 1 := e1]"
    using executeNextTestCall_cancel [of 1 "?xs[0 := e0]" ?skip ?d] len second_executed ex1
    by (simp add: at1)
  have r: "fst (run opts s) = Inr (?xs[0 := e0, 1 := e1])"
    using idle step0 step1 by (simp add: run_def executeTestCalls_def Let_def)
  have s0: "testExecutionStatus e0 = (if ?firstSkipped then SKIPPED_EXECUTION else DONE_EXECUTION)"
  proof (cases ?firstSkipped)
    case True
    then show ?thesis by (simp add: e0_def)
  next
    case False
    with first have "snd (executeTestCall (?xs ! 0) ?d) = ExecuteNextTestCall" by blast
    from executeTestCall_continues [OF this] False show ?thesis by (auto simp: e0_def)
  qed
  have rest: "\<forall>k. 2 \<le> k \<and> k < length ?xs \<longrightarrow>
      (?xs[0 := e0, 1 := e1]) ! k = ?xs ! k \<and>
      testExecutionStatus ((?xs[0 := e0, 1 := e1]) ! k) = INITIALIZED_EXECUTION"
    using fresh by (auto simp: nth_list_update)
  have "testExecutionStatus ((?xs[0 := e0, 1 := e1]) ! 0) =
          (if ?firstSkipped then SKIPPED_EXECUTION else DONE_EXECUTION)"
    using len s0 by (simp add: nth_list_update)
  moreover have "testExecutionStatus ((?xs[0 := e0, 1 := e1]) ! 1) = CANCELLED_EXECUTION"
    using len by (simp add: e1_def)
  moreover have "cancelError ((?xs[0 := e0, 1 := e1]) ! 1) =
      Some (timeoutError (timeoutOf (testCall (?xs ! 1))))"
    using len by (simp add: e1_def)
  ultimately show ?thesis using r rest by simp
qed


lemma threeCallsSecondSlow_list:
  "testCallExecutions threeCallsSecondSlow =
     [initializeTestCallExecution (makeNormalTestCallResult (JNumber 1))
        (makeTestCallSpecifier None (\<lambda>vs. Returns (JNumber 1)) []),
      initializeTestCallExecution (makeNormalTestCallResult (JNumber 2))
        (makeTestCallSpecifier (Some 10) (\<lambda>vs. ResolvesAfter 50 (JNumber 2)) []),
      initializeTestCallExecution (makeNormalTestCallResult (JNumber 3))
        (makeTestCallSpecifier None (\<lambda>vs. Returns (JNumber 3)) [])]"
  by (simp add: threeCallsSecondSlow_def makeTestCallSupervisor_def call_def stopPast_def
      equals_def)

theorem timeout_aborts_remaining_run_witness:
  "\<not> running threeCallsSecondSlow \<and>
   3 \<le> length (testCallExecutions threeCallsSecondSlow) \<and>
   timeoutElapsesFirst (testCall (testCallExecutions threeCallsSecondSlow ! 1)) \<and>
   map_sum id (map testExecutionStatus)
     (fst (run \<lparr>skipTimeboxedTests = False\<rparr> threeCallsSecondSlow)) =
     Inr [DONE_EXECUTION, CANCELLED_EXECUTION, INITIALIZED_EXECUTION]"
proof -
  let ?s = threeCallsSecondSlow
  let ?opts = "\<lparr>skipTimeboxedTests = False\<rparr>"
  have idle: "\<not> running ?s"
    by (simp add: threeCallsSecondSlow_def makeTestCallSupervisor_def call_def stopPast_def
        equals_def)
  have three: "3 \<le> length (testCallExecutions ?s)"
    by (simp add: threeCallsSecondSlow_list)
  have fresh: "\<forall>e \<in> set (testCallExecutions ?s). testExecutionStatus e = INITIALIZED_EXECUTION"
    by (simp add: threeCallsSecondSlow_list initializeTestCallExecution_def)
  have first: "(timeoutDuration (testCall (testCallExecutions ?s ! 0)) \<noteq> None
                   \<and> skipTimeboxedTests ?opts)
                \<or> snd (executeTestCall (testCallExecutions ?s ! 0) DEFAULT_TIMEOUT_DURATION)
                    = ExecuteNextTestCall"
    by (simp add: threeCallsSecondSlow_list initializeTestCallExecution_def
        makeTestCallSpecifier_def executeTestCall_def promisedTestResult_def race_def
        onFulfilled_def)
  have second_executed: "timeoutDuration (testCall (testCallExecutions ?s ! 1)) = None
                            \<or> \<not> skipTimeboxedTests ?opts"
    by simp
  have second_times_out: "timeoutElapsesFirst (testCall (testCallExecutions ?s ! 1))"
    by (simp add: threeCallsSecondSlow_list initializeTestCallExecution_def
        makeTestCallSpecifier_def timeoutElapsesFirst_def timeoutOf_def timerDelay_def)
  from timeout_aborts_remaining_run [OF idle three fresh first second_executed second_times_out]
  obtain r where r: "fst (run ?opts ?s) = Inr r" "length r = length (testCallExecutions ?s)"
    "testExecutionStatus (r ! 0) = DONE_EXECUTION"
    "testExecutionStatus (r ! 1) = CANCELLED_EXECUTION"
    "testExecutionStatus (r ! 2) = INITIALIZED_EXECUTION"
    by (auto simp: threeCallsSecondSlow_list)
  from r(2) have "length r = 3" by (simp add: threeCallsSecondSlow_list)
  then obtain a b c where "r = [a, b, c]"
    by (metis (no_types, lifting) length_0_conv length_Suc_conv numeral_3_eq_3)
  with r have "map testExecutionStatus r = [DONE_EXECUTION, CANCELLED_EXECUTION, INITIALIZED_EXECUTION]"
    by simp
  with r(1) idle three second_times_out show ?thesis by simp
qed

text \<open>
  The claim as it is stated (the first record is done in every such run) fails when
  \<^verbatim>\<open>skipTimeboxedTests\<close> is set and the first call is timeboxed: the first record is skipped,
  the second call, which has no timeout of its own, is executed and times out.
\<close>

theorem timeout_first_record_counterexample:
  "\<not> running firstTimeboxedSecondHangs \<and>
   3 \<le> length (testCallExecutions firstTimeboxedSecondHangs) \<and>
   timeoutElapsesFirst (testCall (testCallExecutions firstTimeboxedSecondHangs ! 1)) \<and>
   map_sum id (map testExecutionStatus)
     (fst (run \<lparr>skipTimeboxedTests = True\<rparr> firstTimeboxedSecondHangs)) =
     Inr [SKIPPED_EXECUTION, CANCELLED_EXECUTION, INITIALIZED_EXECUTION] \<and>
   SKIPPED_EXECUTION \<noteq> DONE_EXECUTION"
  by code_simp

lemma executeTestCall_failsWith:
  assumes "failsWith (testCall e) reason"
  shows "executeTestCall e DEFAULT_TIMEOUT_DURATION = onRejected reason False e"
  using assms
  by (auto simp: failsWith_def timeoutOf_def executeTestCall_def Let_def race_def
      promisedTestResult_def split: behaviour.splits)

lemma asErrorOrConstructor_instance:
  "js_instanceof reason (JFunction c) = Inr True \<Longrightarrow> \<exists>x. asErrorOrConstructor reason = Inr x"
  by (cases reason)
     (auto simp: js_instanceof_def asErrorOrConstructor_def instanceofError_def
       split: list.splits)

lemma js_instanceof_class: "js_instanceof v (JFunction c) \<noteq> Inl thrown"
  by (simp add: js_instanceof_def)

lemma asErrorOrConstructor_Error:
  "instanceofError reason \<Longrightarrow> asErrorOrConstructor reason = Inr reason"
  by (simp add: asErrorOrConstructor_def)

subsection \<open>A call that fails\<close>

lemma isDeepStrictEqual_newErrorOf:
  "isDeepStrictEqual (newErrorOf c m) (newErrorOf c' m') \<longleftrightarrow> c = c' \<and> m = m'"
  by (auto simp: isDeepStrictEqual_def newErrorOf_def getMessage_def getName_def
      enumerableProps_def keyCheck_def)

lemma isDeepStrictEqual_instanceofError:
  "isDeepStrictEqual x reason \<Longrightarrow> instanceofError x \<Longrightarrow> instanceofError reason"
  by (auto simp: isDeepStrictEqual_def instanceofError_def split: jsval.splits)

lemma keyCheck_refl: "keyCheck ps ps"
  by (simp add: keyCheck_def list_all_iff)

lemma isDeepStrictEqual_refl: "isDeepStrictEqual a a"
  by (cases a) (simp_all add: isDeepStrictEqual_def keyCheck_refl)

text \<open>
  What deep equality amounts to on objects whose property lists have distinct keys: the
  same prototype chain and the same properties, whatever the order they were added in; for
  two errors, the same prototype chain, the same message, and the same properties apart
  from the message and the stack.
\<close>

lemma keyCheck_iff:
  assumes ps: "distinct (map fst ps)" and qs: "distinct (map fst qs)"
  shows "keyCheck ps qs \<longleftrightarrow> set ps = set qs"
proof
  assume k: "keyCheck ps qs"
  then have len: "length (map fst ps) = length (map fst qs)"
    and sub: "set (map fst ps) \<subseteq> set (map fst qs)"
    and same: "\<And>key. key \<in> set (map fst ps) \<Longrightarrow> map_of ps key = map_of qs key"
    using ps qs by (auto simp: keyCheck_def list_all_iff distinct_remdups_id)
  have "card (set (map fst ps)) = card (set (map fst qs))"
    using len distinct_card [OF ps] distinct_card [OF qs] by simp
  with sub have keys: "set (map fst ps) = set (map fst qs)"
    by (simp add: card_subset_eq)
  show "set ps = set qs"
  proof (intro set_eqI iffI)
    fix x assume "x \<in> set ps"
    then have "map_of ps (fst x) = Some (snd x)" "fst x \<in> set (map fst ps)"
      using ps by auto
    with same [of "fst x"] have "map_of qs (fst x) = Some (snd x)" by simp
    then show "x \<in> set qs" using map_of_SomeD by fastforce
  next
    fix x assume "x \<in> set qs"
    then have "map_of qs (fst x) = Some (snd x)" "fst x \<in> set (map fst ps)"
      using qs keys by auto
    with same [of "fst x"] have "map_of ps (fst x) = Some (snd x)" by simp
    then show "x \<in> set ps" using map_of_SomeD by fastforce
  qed
next
  assume eq: "set ps = set qs"
  have "map_of ps key = map_of qs key" for key
    using ps qs eq by (metis map_of_inject_set)
  moreover have keys: "set (map fst ps) = set (map fst qs)"
    using eq by simp
  moreover have "length (remdups (map fst ps)) = length (remdups (map fst qs))"
    using keys by (simp add: length_remdups_card_conv)
  ultimately show "keyCheck ps qs"
    by (auto simp: keyCheck_def list_all_iff)
qed

lemma isDeepStrictEqual_objects:
  assumes "distinct (map fst ps)" and "distinct (map fst qs)" and "''Error'' \<notin> set chain"
  shows "isDeepStrictEqual (JObject chain ps) (JObject chain' qs) \<longleftrightarrow> chain = chain' \<and> set ps = set qs"
  using assms by (auto simp: isDeepStrictEqual_def enumerableProps_def keyCheck_iff)

lemma isDeepStrictEqual_errors:
  assumes "distinct (map fst ps)" and "distinct (map fst qs)" and "''Error'' \<in> set chain"
  shows "isDeepStrictEqual (JObject chain ps) (JObject chain' qs) \<longleftrightarrow>
           chain = chain' \<and> getMessage ps = getMessage qs \<and>
           {p \<in> set ps. fst p \<noteq> ''message'' \<and> fst p \<noteq> ''stack''}
             = {q \<in> set qs. fst q \<noteq> ''message'' \<and> fst q \<noteq> ''stack''}"
proof -
  let ?f = "\<lambda>(key, v :: string). key \<noteq> ''message'' \<and> key \<noteq> ''stack''"
  have d: "distinct (map fst (filter ?f ps))" "distinct (map fst (filter ?f qs))"
    using assms by (simp_all add: distinct_map_filter)
  have s: "set (filter ?f xs) = {p \<in> set xs. fst p \<noteq> ''message'' \<and> fst p \<noteq> ''stack''}" for xs
    by auto
  have n: "getName chain ps = getName chain qs"
    if "set (filter ?f ps) = set (filter ?f qs)"
  proof -
    have "(''name'', v) \<in> set ps \<longleftrightarrow> (''name'', v) \<in> set qs" for v
      using that by (auto simp: set_eq_iff)
    then have "map_of ps ''name'' = map_of qs ''name''"
      using assms(1,2)
      by (metis map_of_SomeD map_of_is_SomeI option.exhaust)
    then show ?thesis by (simp add: getName_def)
  qed
  show ?thesis
    using assms(3) n keyCheck_iff [OF d] unfolding s
    by (auto simp: isDeepStrictEqual_def enumerableProps_def)
qed

text \<open>
  Claim C6. For an executed call that fails (it throws, or it rejects before its timer
  fires), with \<open>reason\<close> the failure obtained:
  \<^item> if a normal value was expected, \<open>passed\<close> is false;
  \<^item> if the expectation is an \<^verbatim>\<open>Error\<close> instance, the record is done with \<open>passed\<close> true
    exactly when the expected error and the reason are deeply equal; for an expected
    \<^verbatim>\<open>new C(m)\<close> and an obtained \<^verbatim>\<open>new C'(m')\<close>, that is exactly when \<open>C = C'\<close> and \<open>m = m'\<close>, so
    that the same class with another message fails;
  \<^item> if the expectation is a class, \<open>passed\<close> is true exactly when the reason is an instance
    of that class, which for an object is when the class is on its prototype chain, and the
    record is then done;
  \<^item> in these three cases the record is done exactly when the constructor of the reason can
    be retrieved (it cannot for \<^verbatim>\<open>null\<close>, \<^verbatim>\<open>undefined\<close> and an object without prototype);
  \<^item> an expectation that is a function without \<^verbatim>\<open>prototype\<close> is no class: for a reason
    that is an object the comparison throws a \<^verbatim>\<open>TypeError\<close>, the record is cancelled with
    it, \<open>passed\<close> is not set, and the run is cancelled.
\<close>

theorem failure_is_compared_with_expectation:
  assumes "failsWith (testCall e) reason"
  shows
    "(error (expected e) = None \<longrightarrow>
        \<not> passed (fst (executeTestCall e DEFAULT_TIMEOUT_DURATION))) \<and>
     (\<forall>expectedError. error (expected e) = Some expectedError \<and> instanceofError expectedError \<longrightarrow>
        ((testExecutionStatus (fst (executeTestCall e DEFAULT_TIMEOUT_DURATION)) = DONE_EXECUTION
            \<and> passed (fst (executeTestCall e DEFAULT_TIMEOUT_DURATION)))
          \<longleftrightarrow> isDeepStrictEqual expectedError reason) \<and>
        (passed (fst (executeTestCall e DEFAULT_TIMEOUT_DURATION))
          \<longleftrightarrow> isDeepStrictEqual expectedError reason)) \<and>
     (\<forall>c m c' m'. error (expected e) = Some (newErrorOf c m) \<and> reason = newErrorOf c' m' \<longrightarrow>
        ((testExecutionStatus (fst (executeTestCall e DEFAULT_TIMEOUT_DURATION)) = DONE_EXECUTION
            \<and> passed (fst (executeTestCall e DEFAULT_TIMEOUT_DURATION)))
          \<longleftrightarrow> c = c' \<and> m = m')) \<and>
     (\<forall>c. error (expected e) = Some (JFunction c) \<longrightarrow>
        (passed (fst (executeTestCall e DEFAULT_TIMEOUT_DURATION))
          \<longleftrightarrow> js_instanceof reason (JFunction c) = Inr True) \<and>
        (passed (fst (executeTestCall e DEFAULT_TIMEOUT_DURATION)) \<longrightarrow>
           testExecutionStatus (fst (executeTestCall e DEFAULT_TIMEOUT_DURATION)) = DONE_EXECUTION)) \<and>
     (\<forall>c chain ps. error (expected e) = Some (JFunction c) \<and> reason = JObject chain ps \<longrightarrow>
        (passed (fst (executeTestCall e DEFAULT_TIMEOUT_DURATION)) \<longleftrightarrow> c \<in> set chain)) \<and>
     ((error (expected e) = None
         \<or> (\<exists>x. error (expected e) = Some x \<and> (instanceofError x \<or> (\<exists>c. x = JFunction c)))) \<longrightarrow>
        (testExecutionStatus (fst (executeTestCall e DEFAULT_TIMEOUT_DURATION)) = DONE_EXECUTION
          \<longleftrightarrow> (\<exists>x. asErrorOrConstructor reason = Inr x))) \<and>
     (\<forall>f. error (expected e) = Some (JArrow f) \<longrightarrow>
        (passed (fst (executeTestCall e DEFAULT_TIMEOUT_DURATION)) \<longrightarrow> passed e) \<and>
        ((\<exists>chain ps. reason = JObject chain ps) \<longrightarrow>
           testExecutionStatus (fst (executeTestCall e DEFAULT_TIMEOUT_DURATION))
             = CANCELLED_EXECUTION \<and>
           cancelError (fst (executeTestCall e DEFAULT_TIMEOUT_DURATION))
             = Some (typeError ''Function has non-object prototype 'undefined' in instanceof check'') \<and>
           snd (executeTestCall e DEFAULT_TIMEOUT_DURATION) = CancelExecution))"
proof -
  let ?e' = "fst (executeTestCall e DEFAULT_TIMEOUT_DURATION)"
  have run: "executeTestCall e DEFAULT_TIMEOUT_DURATION = onRejected reason False e"
    by (rule executeTestCall_failsWith [OF assms])
  have normal: "error (expected e) = None \<longrightarrow> \<not> passed ?e'"
    unfolding run
    by (auto simp: onRejected_def compareWithObtainedError_def Let_def cancelTestCallExecution_def
        split: sum.splits)
  have inst: "(testExecutionStatus ?e' = DONE_EXECUTION \<and> passed ?e')
                  \<longleftrightarrow> isDeepStrictEqual expectedError reason"
     and inst_passed: "passed ?e' \<longleftrightarrow> isDeepStrictEqual expectedError reason"
    if "error (expected e) = Some expectedError" "instanceofError expectedError"
    for expectedError
    using that isDeepStrictEqual_instanceofError [of expectedError reason] unfolding run
    by (auto simp: onRejected_def compareWithObtainedError_def Let_def cancelTestCallExecution_def
        asErrorOrConstructor_Error split: sum.splits)
  have same: "(testExecutionStatus ?e' = DONE_EXECUTION \<and> passed ?e') \<longleftrightarrow> c = c' \<and> m = m'"
    if "error (expected e) = Some (newErrorOf c m)" "reason = newErrorOf c' m'" for c m c' m'
  proof -
    have "instanceofError (newErrorOf c m)"
      by (simp add: instanceofError_def newErrorOf_def)
    from inst [OF that(1) this] show ?thesis
      by (simp add: that(2) isDeepStrictEqual_newErrorOf)
  qed
  have cls: "passed ?e' \<longleftrightarrow> js_instanceof reason (JFunction c) = Inr True"
     and cls_done: "passed ?e' \<longrightarrow> testExecutionStatus ?e' = DONE_EXECUTION"
    if "error (expected e) = Some (JFunction c)" for c
    using that asErrorOrConstructor_instance [of reason c] unfolding run
    by (auto simp: onRejected_def compareWithObtainedError_def Let_def cancelTestCallExecution_def
        instanceofError_def js_instanceof_class split: sum.splits)
  have chain: "passed ?e' \<longleftrightarrow> c \<in> set chain"
    if "error (expected e) = Some (JFunction c)" "reason = JObject chain ps" for c chain ps
    using cls [OF that(1)] by (simp add: that(2) js_instanceof_def)
  have finished: "testExecutionStatus ?e' = DONE_EXECUTION \<longleftrightarrow> (\<exists>x. asErrorOrConstructor reason = Inr x)"
    if "error (expected e) = None
         \<or> (\<exists>x. error (expected e) = Some x \<and> (instanceofError x \<or> (\<exists>c. x = JFunction c)))"
    using that unfolding run
    by (auto simp: onRejected_def compareWithObtainedError_def Let_def cancelTestCallExecution_def
        js_instanceof_class split: sum.splits if_splits)
  have arrow: "passed ?e' \<longrightarrow> passed e"
    if "error (expected e) = Some (JArrow f)" for f
    using that unfolding run
    by (cases reason)
       (auto simp: onRejected_def compareWithObtainedError_def Let_def cancelTestCallExecution_def
         instanceofError_def js_instanceof_def split: sum.splits)
  have arrow_object:
    "testExecutionStatus ?e' = CANCELLED_EXECUTION \<and>
     cancelError ?e'
       = Some (typeError ''Function has non-object prototype 'undefined' in instanceof check'') \<and>
     snd (executeTestCall e DEFAULT_TIMEOUT_DURATION) = CancelExecution"
    if "error (expected e) = Some (JArrow f)" "reason = JObject chain ps" for f chain ps
    using that unfolding run
    by (simp add: onRejected_def compareWithObtainedError_def cancelTestCallExecution_def
        instanceofError_def js_instanceof_def typeError_def newErrorOf_def)
  show ?thesis
  proof (intro conjI)
    show "error (expected e) = None \<longrightarrow> \<not> passed ?e'"
      by (rule normal)
    show "\<forall>expectedError. error (expected e) = Some expectedError \<and> instanceofError expectedError \<longrightarrow>
        ((testExecutionStatus ?e' = DONE_EXECUTION \<and> passed ?e')
          \<longleftrightarrow> isDeepStrictEqual expectedError reason) \<and>
        (passed ?e' \<longleftrightarrow> isDeepStrictEqual expectedError reason)"
      using inst inst_passed by blast
    show "\<forall>c m c' m'. error (expected e) = Some (newErrorOf c m) \<and> reason = newErrorOf c' m' \<longrightarrow>
        ((testExecutionStatus ?e' = DONE_EXECUTION \<and> passed ?e') \<longleftrightarrow> c = c' \<and> m = m')"
      using same by blast
    show "\<forall>c. error (expected e) = Some (JFunction c) \<longrightarrow>
        (passed ?e' \<longleftrightarrow> js_instanceof reason (JFunction c) = Inr True) \<and>
        (passed ?e' \<longrightarrow> testExecutionStatus ?e' = DONE_EXECUTION)"
      using cls cls_done by blast
    show "\<forall>c chain ps. error (expected e) = Some (JFunction c) \<and> reason = JObject chain ps \<longrightarrow>
        (passed ?e' \<longleftrightarrow> c \<in> set chain)"
      using chain by blast
    show "(error (expected e) = None
         \<or> (\<exists>x. error (expected e) = Some x \<and> (instanceofError x \<or> (\<exists>c. x = JFunction c)))) \<longrightarrow>
        (testExecutionStatus ?e' = DONE_EXECUTION \<longleftrightarrow> (\<exists>x. asErrorOrConstructor reason = Inr x))"
      using finished by blast
    show "\<forall>f. error (expected e) = Some (JArrow f) \<longrightarrow>
        (passed ?e' \<longrightarrow> passed e) \<and>
        ((\<exists>chain ps. reason = JObject chain ps) \<longrightarrow>
           testExecutionStatus ?e' = CANCELLED_EXECUTION \<and>
           cancelError ?e'
             = Some (typeError ''Function has non-object prototype 'undefined' in instanceof check'') \<and>
           snd (executeTestCall e DEFAULT_TIMEOUT_DURATION) = CancelExecution)"
      using arrow arrow_object by blast
  qed
qed

theorem failure_is_compared_with_expectation_witness:
  "failsWith (testCall throwsRangeError) (newErrorOf ''RangeError'' ''out of range'') \<and>
   passed (fst (executeTestCall throwsRangeError DEFAULT_TIMEOUT_DURATION)) \<and>
   testExecutionStatus (fst (executeTestCall throwsRangeError DEFAULT_TIMEOUT_DURATION))
     = DONE_EXECUTION \<and>
   failsWith (testCall throwsSameError) (newErrorOf ''RangeError'' ''out of range'') \<and>
   passed (fst (executeTestCall throwsSameError DEFAULT_TIMEOUT_DURATION)) \<and>
   testExecutionStatus (fst (executeTestCall throwsSameError DEFAULT_TIMEOUT_DURATION))
     = DONE_EXECUTION \<and>
   failsWith (testCall throwsOtherMessage) (newErrorOf ''RangeError'' ''out of range'') \<and>
   \<not> passed (fst (executeTestCall throwsOtherMessage DEFAULT_TIMEOUT_DURATION)) \<and>
   testExecutionStatus (fst (executeTestCall throwsOtherMessage DEFAULT_TIMEOUT_DURATION))
     = DONE_EXECUTION \<and>
   failsWith (testCall expectsArrow) (newErrorOf ''RangeError'' ''out of range'') \<and>
   testExecutionStatus (fst (executeTestCall expectsArrow DEFAULT_TIMEOUT_DURATION))
     = CANCELLED_EXECUTION \<and>
   snd (executeTestCall expectsArrow DEFAULT_TIMEOUT_DURATION) = CancelExecution"
proof -
  let ?reason = "newErrorOf ''RangeError'' ''out of range''"
  have err: "instanceofError (newErrorOf c m)" for c m
    by (simp add: instanceofError_def newErrorOf_def)
  have fails: "failsWith (testCall (initializeTestCallExecution x
                  (makeTestCallSpecifier None (\<lambda>vs. Throws ?reason) []))) ?reason" for x
    by (simp add: initializeTestCallExecution_def makeTestCallSpecifier_def failsWith_def
        errorFromReason_def err)
  have h1: "failsWith (testCall throwsRangeError) ?reason"
    unfolding throwsRangeError_def by (rule fails)
  have h2: "failsWith (testCall throwsSameError) ?reason"
    unfolding throwsSameError_def by (rule fails)
  have h3: "failsWith (testCall throwsOtherMessage) ?reason"
    unfolding throwsOtherMessage_def by (rule fails)
  have h4: "failsWith (testCall expectsArrow) ?reason"
    unfolding expectsArrow_def by (rule fails)
  have x1: "error (expected throwsRangeError) = Some (JFunction ''RangeError'')"
    by (simp add: throwsRangeError_def initializeTestCallExecution_def makeErrorTestCallResult_def)
  have x2: "error (expected throwsSameError) = Some (newErrorOf ''RangeError'' ''out of range'')"
    by (simp add: throwsSameError_def initializeTestCallExecution_def makeErrorTestCallResult_def)
  have x3: "error (expected throwsOtherMessage) = Some (newErrorOf ''RangeError'' ''too large'')"
    by (simp add: throwsOtherMessage_def initializeTestCallExecution_def
        makeErrorTestCallResult_def)
  have x4: "error (expected expectsArrow) = Some (JArrow ''isRangeError'')"
    by (simp add: expectsArrow_def initializeTestCallExecution_def makeErrorTestCallResult_def)
  have chain: "?reason = JObject [''RangeError'', ''Error'', ''Object''] [(''message'', ''out of range'')]"
    by (simp add: newErrorOf_def)
  have differ: "''too large'' \<noteq> ''out of range''"
    by simp
  have c: "\<exists>y. asErrorOrConstructor ?reason = Inr y"
    by (simp add: asErrorOrConstructor_Error err)
  note class_case = failure_is_compared_with_expectation [OF h1, THEN conjunct2, THEN conjunct2,
      THEN conjunct2, THEN conjunct1]
  note chain_case = failure_is_compared_with_expectation [OF h1, THEN conjunct2, THEN conjunct2,
      THEN conjunct2, THEN conjunct2, THEN conjunct1]
  note same_case = failure_is_compared_with_expectation [OF h2, THEN conjunct2, THEN conjunct2,
      THEN conjunct1]
  note other_case = failure_is_compared_with_expectation [OF h3, THEN conjunct2, THEN conjunct2,
      THEN conjunct1]
  note other_done = failure_is_compared_with_expectation [OF h3, THEN conjunct2, THEN conjunct2,
      THEN conjunct2, THEN conjunct2, THEN conjunct2, THEN conjunct1]
  note arrow_case = failure_is_compared_with_expectation [OF h4, THEN conjunct2, THEN conjunct2,
      THEN conjunct2, THEN conjunct2, THEN conjunct2, THEN conjunct2]
  from chain_case x1 chain
  have p1: "passed (fst (executeTestCall throwsRangeError DEFAULT_TIMEOUT_DURATION))"
    by simp
  with class_case x1
  have d1: "testExecutionStatus (fst (executeTestCall throwsRangeError DEFAULT_TIMEOUT_DURATION))
       = DONE_EXECUTION"
    by simp
  from same_case x2
  have "testExecutionStatus (fst (executeTestCall throwsSameError DEFAULT_TIMEOUT_DURATION))
          = DONE_EXECUTION
        \<and> passed (fst (executeTestCall throwsSameError DEFAULT_TIMEOUT_DURATION))"
    by blast
  then have p2: "passed (fst (executeTestCall throwsSameError DEFAULT_TIMEOUT_DURATION))"
    and d2: "testExecutionStatus (fst (executeTestCall throwsSameError DEFAULT_TIMEOUT_DURATION))
       = DONE_EXECUTION"
    by simp_all
  from other_done x3 err c
  have d3: "testExecutionStatus (fst (executeTestCall throwsOtherMessage DEFAULT_TIMEOUT_DURATION))
       = DONE_EXECUTION"
    by simp
  from other_case x3 differ
  have "\<not> (testExecutionStatus (fst (executeTestCall throwsOtherMessage DEFAULT_TIMEOUT_DURATION))
            = DONE_EXECUTION
          \<and> passed (fst (executeTestCall throwsOtherMessage DEFAULT_TIMEOUT_DURATION)))"
    by blast
  with d3 have p3: "\<not> passed (fst (executeTestCall throwsOtherMessage DEFAULT_TIMEOUT_DURATION))"
    by simp
  from arrow_case x4 chain
  have d4: "testExecutionStatus (fst (executeTestCall expectsArrow DEFAULT_TIMEOUT_DURATION))
          = CANCELLED_EXECUTION"
    and c4: "snd (executeTestCall expectsArrow DEFAULT_TIMEOUT_DURATION) = CancelExecution"
    by simp_all
  show ?thesis
    using h1 p1 d1 h2 p2 d2 h3 p3 d3 h4 d4 c4 by simp
qed

text \<open>
  Deep equality does not depend on the order in which the properties of the two values
  were added, and an error built without a message has the empty message of
  \<^verbatim>\<open>Error.prototype\<close>: a thrown \<^verbatim>\<open>undefined\<close>, which \<^verbatim>\<open>errorFromReason\<close> turns into
  \<^verbatim>\<open>new Error(undefined)\<close>, meets the expectation \<^verbatim>\<open>new Error('')\<close>.
\<close>

lemma deep_equality_examples:
  "passed (fst (executeTestCall returnsReordered DEFAULT_TIMEOUT_DURATION)) \<and>
   passed (fst (executeTestCall throwsReordered DEFAULT_TIMEOUT_DURATION)) \<and>
   testExecutionStatus (fst (executeTestCall throwsReordered DEFAULT_TIMEOUT_DURATION))
     = DONE_EXECUTION \<and>
   passed (fst (executeTestCall throwsUndefined DEFAULT_TIMEOUT_DURATION)) \<and>
   testExecutionStatus (fst (executeTestCall throwsUndefined DEFAULT_TIMEOUT_DURATION))
     = DONE_EXECUTION"
proof -
  let ?thrown = "JObject [''Error'', ''Object'']
                   [(''path'', ''/x''), (''message'', ''no such file''), (''code'', ''ENOENT'')]"
  have "failsWith (testCall throwsReordered) ?thrown"
    by (simp add: throwsReordered_def initializeTestCallExecution_def makeTestCallSpecifier_def
        failsWith_def errorFromReason_def instanceofError_def)
  then have r: "executeTestCall throwsReordered DEFAULT_TIMEOUT_DURATION
                  = onRejected ?thrown False throwsReordered"
    by (rule executeTestCall_failsWith)
  have "failsWith (testCall throwsUndefined) (newErrorWith None)"
    by (simp add: throwsUndefined_def initializeTestCallExecution_def makeTestCallSpecifier_def
        failsWith_def errorFromReason_def instanceofError_def pprint_def)
  then have u: "executeTestCall throwsUndefined DEFAULT_TIMEOUT_DURATION
                  = onRejected (newErrorWith None) False throwsUndefined"
    by (rule executeTestCall_failsWith)
  let ?returned = "JObject [''Object''] [(''y'', ''2''), (''x'', ''1'')]"
  have v: "executeTestCall returnsReordered DEFAULT_TIMEOUT_DURATION
             = onFulfilled ?returned returnsReordered"
    by (simp add: returnsReordered_def initializeTestCallExecution_def makeTestCallSpecifier_def
        executeTestCall_def promisedTestResult_def race_def)
  have "passed (fst (onFulfilled ?returned returnsReordered))"
    by code_simp
  moreover
  have "passed (fst (onRejected ?thrown False throwsReordered))"
    by code_simp
  moreover
  have "testExecutionStatus (fst (onRejected ?thrown False throwsReordered)) = DONE_EXECUTION"
    by code_simp
  moreover
  have "passed (fst (onRejected (newErrorWith None) False throwsUndefined))"
    by code_simp
  moreover
  have "testExecutionStatus (fst (onRejected (newErrorWith None) False throwsUndefined))
          = DONE_EXECUTION"
    by code_simp
  ultimately show ?thesis by (simp add: r u v)
qed

subsection \<open>A rejection with no constructor\<close>

text \<open>
  Claim C10. When the call at \<open>offset k\<close> is executed and rejects with \<^verbatim>\<open>null\<close> or
  \<^verbatim>\<open>undefined\<close> before its timer fires, no timeout has occurred, yet finalizing the record
  throws: the record ends cancelled, and the run stops there with every other record as it
  was.
\<close>

theorem null_rejection_cancels_run:
  assumes at: "k < length xs"
    and executed: "timeoutDuration (testCall (xs ! k)) = None \<or> \<not> skip"
    and rejects: "fn (testCall (xs ! k)) (inputs (testCall (xs ! k))) = RejectsAfter d reason"
    and nullish: "reason = JNull \<or> reason = JUndefined"
    and before: "d < timerDelay (timeoutOf (testCall (xs ! k)))"
  shows "race (promisedTestResult (testCall (xs ! k))) (timeoutOf (testCall (xs ! k)))
           = Rejected reason False \<and>
         fst (compareWithObtainedError reason (xs ! k)) \<noteq> None \<and>
         length (executeNextTestCall xs DEFAULT_TIMEOUT_DURATION skip k) = length xs \<and>
         testExecutionStatus (executeNextTestCall xs DEFAULT_TIMEOUT_DURATION skip k ! k)
           = CANCELLED_EXECUTION \<and>
         (\<forall>j. j < length xs \<and> j \<noteq> k \<longrightarrow>
            executeNextTestCall xs DEFAULT_TIMEOUT_DURATION skip k ! j = xs ! j)"
proof -
  let ?e = "xs ! k"
  have fails: "failsWith (testCall ?e) reason"
    using rejects before by (simp add: failsWith_def)
  have throws: "fst (compareWithObtainedError reason ?e) \<noteq> None"
    using nullish
    by (auto simp: compareWithObtainedError_def Let_def asErrorOrConstructor_def
        instanceofError_def split: sum.splits option.splits)
  have ex: "executeTestCall ?e DEFAULT_TIMEOUT_DURATION = onRejected reason False ?e"
    by (rule executeTestCall_failsWith [OF fails])
  have cancel: "snd (executeTestCall ?e DEFAULT_TIMEOUT_DURATION) = CancelExecution"
    and status: "testExecutionStatus (fst (executeTestCall ?e DEFAULT_TIMEOUT_DURATION))
                   = CANCELLED_EXECUTION"
    using throws unfolding ex
    by (auto simp: onRejected_def cancelTestCallExecution_def split: prod.splits option.splits)
  have r: "executeNextTestCall xs DEFAULT_TIMEOUT_DURATION skip k
             = xs[k := fst (executeTestCall ?e DEFAULT_TIMEOUT_DURATION)]"
    by (rule executeNextTestCall_cancel [OF at executed cancel])
  have race: "race (promisedTestResult (testCall ?e)) (timeoutOf (testCall ?e)) = Rejected reason False"
    using rejects before by (simp add: race_def promisedTestResult_def)
  show ?thesis
    using at status race throws unfolding r by (simp add: nth_list_update)
qed

theorem null_rejection_cancels_run_witness:
  "fn (testCall (rejectsWithNull ! 0)) (inputs (testCall (rejectsWithNull ! 0))) = RejectsAfter 5 JNull \<and>
   5 < timerDelay (timeoutOf (testCall (rejectsWithNull ! 0))) \<and>
   map testExecutionStatus (executeNextTestCall rejectsWithNull DEFAULT_TIMEOUT_DURATION False 0)
     = [CANCELLED_EXECUTION, INITIALIZED_EXECUTION]"
proof -
  have at: "0 < length rejectsWithNull" by (simp add: rejectsWithNull_def)
  have executed: "timeoutDuration (testCall (rejectsWithNull ! 0)) = None \<or> \<not> False" by simp
  have rejects: "fn (testCall (rejectsWithNull ! 0)) (inputs (testCall (rejectsWithNull ! 0)))
                   = RejectsAfter 5 JNull"
    by (simp add: rejectsWithNull_def initializeTestCallExecution_def makeTestCallSpecifier_def)
  have nullish: "JNull = JNull \<or> JNull = JUndefined" by simp
  have before: "5 < timerDelay (timeoutOf (testCall (rejectsWithNull ! 0)))"
    by (simp add: rejectsWithNull_def initializeTestCallExecution_def makeTestCallSpecifier_def
        timeoutOf_def timerDelay_def DEFAULT_TIMEOUT_DURATION_def)
  let ?r = "executeNextTestCall rejectsWithNull DEFAULT_TIMEOUT_DURATION False 0"
  from null_rejection_cancels_run [OF at executed rejects nullish before]
  have len: "length ?r = length rejectsWithNull"
    and c: "testExecutionStatus (?r ! 0) = CANCELLED_EXECUTION"
    and rest: "?r ! 1 = rejectsWithNull ! 1"
    by (simp_all add: rejectsWithNull_def)
  from len have "length ?r = 2" by (simp add: rejectsWithNull_def)
  then obtain a b where ab: "?r = [a, b]"
    by (metis (no_types, lifting) length_0_conv length_Suc_conv numeral_2_eq_2)
  with c rest have "map testExecutionStatus ?r = [CANCELLED_EXECUTION, INITIALIZED_EXECUTION]"
    by (simp add: rejectsWithNull_def initializeTestCallExecution_def)
  with rejects before show ?thesis by simp
qed

subsection \<open>Registration\<close>

text \<open>
  Claim C9. A registration by \<^verbatim>\<open>call\<close> (the \<^verbatim>\<open>register\<close> of the specification) or by
  \<^verbatim>\<open>stopPast\<close> on which neither \<open>equals\<close> nor \<open>throws\<close> is invoked leaves the pending list as
  it is, so that \<^verbatim>\<open>run()\<close> gives what it gives without the registration, and nothing for a
  supervisor with no other registration; no error is raised. It is \<open>equals\<close> and \<open>throws\<close>
  that add the entry.
\<close>

theorem registration_without_check_adds_no_test:
  "snd (call f vs s) = s \<and>
   snd (stopPast t f vs s) = s \<and>
   run opts (snd (call f vs s)) = run opts s \<and>
   run opts (snd (stopPast t f vs s)) = run opts s \<and>
   fst (run opts (snd (call f vs makeTestCallSupervisor))) = Inr [] \<and>
   fst (run opts (snd (stopPast t f vs makeTestCallSupervisor))) = Inr [] \<and>
   length (testCallExecutions (equals (fst (call f vs s)) v s))
     = Suc (length (testCallExecutions s)) \<and>
   length (testCallExecutions (throws (fst (call f vs s)) err s))
     = Suc (length (testCallExecutions s))"
  by (simp add: call_def stopPast_def run_def makeTestCallSupervisor_def executeTestCalls_def
      executeNextTestCall.simps [of "[]"] equals_def throws_def)

theorem registration_without_check_adds_no_test_witness:
  "fst (run \<lparr>skipTimeboxedTests = False\<rparr>
          (snd (call (\<lambda>vs. Returns (JNumber 1)) [] makeTestCallSupervisor))) = Inr [] \<and>
   fst (run \<lparr>skipTimeboxedTests = False\<rparr>
          (snd (stopPast 50 (\<lambda>vs. NeverSettles) [] makeTestCallSupervisor))) = Inr []"
  using registration_without_check_adds_no_test
          [where f = "\<lambda>vs. Returns (JNumber 1)" and vs = "[]" and s = makeTestCallSupervisor
             and opts = "\<lparr>skipTimeboxedTests = False\<rparr>"]
        registration_without_check_adds_no_test
          [where f = "\<lambda>vs. NeverSettles" and vs = "[]" and s = makeTestCallSupervisor
             and opts = "\<lparr>skipTimeboxedTests = False\<rparr>" and t = 50]
  by blast

section \<open>Properties of pathnames\<close>

lemma split_js_not_Nil [simp]: "split_js s c \<noteq> []"
  by (induction s) (auto split: list.splits)

lemma split_js_no_separator: "c \<notin> set s \<Longrightarrow> split_js s c = [s]"
  by (induction s) auto

lemma split_js_append: "c \<notin> set s \<Longrightarrow> split_js (s @ c # rest) c = s # split_js rest c"
  by (induction s) auto

lemma split_js_segments:
  "\<forall>s \<in> set segs. c \<notin> set s \<Longrightarrow>
     split_js (concat (map (\<lambda>s. s @ [c]) segs) @ rest) c = segs @ split_js rest c"
  by (induction segs) (auto simp: split_js_append)

lemma length_split_js: "length (split_js s c) = Suc (length (filter (\<lambda>x. x = c) s))"
  by (induction s) (auto split: list.splits)

lemma plainName_no_slash: "plainName s \<Longrightarrow> CHR ''/'' \<notin> set s"
  by (simp add: plainName_def)

lemma split_js_folderPathnameOf:
  assumes "\<forall>s \<in> set segs. plainName s"
  shows "split_js (folderPathnameOf segs @ rest) (CHR ''/'') = [] # segs @ split_js rest (CHR ''/'')"
proof -
  have "\<forall>s \<in> set segs. CHR ''/'' \<notin> set s" using assms by (simp add: plainName_def)
  from split_js_segments [OF this, of rest] show ?thesis
    by (simp add: folderPathnameOf_def)
qed

lemma foldl_normalizeSegment_plain:
  "\<forall>s \<in> set segs. plainName s \<Longrightarrow> foldl (normalizeSegment b) acc segs = acc @ segs"
  by (induction segs arbitrary: acc) (auto simp: normalizeSegment_def plainName_def)

lemma joinWith_snoc:
  "joinWith c (segs @ [s]) = concat (map (\<lambda>s. s @ [c]) segs) @ s"
  by (induction c segs rule: joinWith.induct) auto

lemma join_folderPathnameOf:
  assumes segs: "\<forall>s \<in> set segs. plainName s" and nm: "plainName nm"
  shows "join (folderPathnameOf segs) nm = folderPathnameOf segs @ nm"
proof -
  let ?root = "folderPathnameOf segs"
  let ?p = "?root @ CHR ''/'' # nm"
  have nslash: "CHR ''/'' \<notin> set nm" and nonempty: "nm \<noteq> []"
    using nm by (simp_all add: plainName_def)
  have split: "split_js ?p (CHR ''/'') = [] # segs @ [[], nm]"
    using split_js_folderPathnameOf [OF segs, of "CHR ''/'' # nm"] nslash
    by (simp add: split_js_no_separator)
  have norm: "foldl (normalizeSegment b) [] (split_js ?p (CHR ''/'')) = segs @ [nm]" for b
    unfolding split
    using foldl_normalizeSegment_plain [OF segs, of b "[]"] nm
    by (simp add: normalizeSegment_def plainName_def)
  have q: "joinWith (CHR ''/'') (segs @ [nm]) = concat (map (\<lambda>s. s @ ''/'') segs) @ nm"
    by (simp add: joinWith_snoc)
  have hd: "hd ?p = CHR ''/''" by (simp add: folderPathnameOf_def)
  have last: "last ?p \<noteq> CHR ''/''" using nslash nonempty by (auto dest: last_in_set)
  have ne: "?p \<noteq> []" by simp
  have "path_normalize ?p = ''/'' @ (concat (map (\<lambda>s. s @ ''/'') segs) @ nm) @ []"
    unfolding path_normalize_def Let_def norm q
    using nonempty by (simp only: ne hd last) simp
  then have "path_normalize ?p = ?root @ nm"
    by (simp add: folderPathnameOf_def)
  moreover have "join ?root nm = path_normalize ?p"
    using nonempty by (simp add: join_def Let_def folderPathnameOf_def)
  ultimately show ?thesis by simp
qed


lemma folderPathnameOf_snoc:
  "folderPathnameOf (segs @ [nm]) = folderPathnameOf segs @ nm @ ''/''"
  by (simp add: folderPathnameOf_def)

lemma length_split_js_folderPathnameOf:
  assumes "\<forall>s \<in> set segs. plainName s"
  shows "length (split_js (folderPathnameOf segs) (CHR ''/'')) = length segs + 2"
  using split_js_folderPathnameOf [OF assms, of "[]"] by simp

lemma matchesNavigation_append:
  "matchesNavigation (xs @ ys) =
     (matchesNavigation xs \<or> matchesNavigation ys \<or>
      (xs \<noteq> [] \<and> ys \<noteq> [] \<and> last xs = CHR ''.'' \<and> (hd ys = CHR ''/'' \<or> hd ys = CHR 0x5C)))"
  apply (induction xs rule: matchesNavigation.induct)
  subgoal by auto
  subgoal by simp
  subgoal by (cases ys) auto
  done

lemma matchesNavigation_no_separator:
  "CHR ''/'' \<notin> set s \<Longrightarrow> CHR 0x5C \<notin> set s \<Longrightarrow> \<not> matchesNavigation s"
  by (induction s rule: matchesNavigation.induct) auto

lemma matchesNavigation_segments:
  "\<forall>s \<in> set segs. plainFolderName s \<Longrightarrow>
     \<not> matchesNavigation (concat (map (\<lambda>s. s @ ''/'') segs))"
proof (induction segs)
  case Nil
  then show ?case by simp
next
  case (Cons s segs)
  then have s: "plainFolderName s" and rest: "\<not> matchesNavigation (concat (map (\<lambda>s. s @ ''/'') segs))"
    by simp_all
  from s have "\<not> matchesNavigation s" "s \<noteq> []" "last s \<noteq> CHR ''.''"
    by (simp_all add: plainFolderName_def plainName_def matchesNavigation_no_separator)
  then have "\<not> matchesNavigation (s @ ''/'')"
    by (simp add: matchesNavigation_append)
  with rest show ?case
    using matchesNavigation_append [of "s @ ''/''" "concat (map (\<lambda>s. s @ ''/'') segs)"]
    by simp
qed

lemma matchesNavigation_folderPathnameOf:
  assumes "\<forall>s \<in> set segs. plainFolderName s"
  shows "\<not> matchesNavigation (folderPathnameOf segs)"
  using matchesNavigation_segments [OF assms]
    matchesNavigation_append [of "''/''" "concat (map (\<lambda>s. s @ ''/'') segs)"]
  by (simp add: folderPathnameOf_def)

lemma backslash_folderPathnameOf:
  "\<forall>s \<in> set segs. plainName s \<Longrightarrow> CHR 0x5C \<notin> set (folderPathnameOf segs)"
  by (auto simp: folderPathnameOf_def plainName_def)

lemma normalizePathname_id: "CHR 0x5C \<notin> set p \<Longrightarrow> normalizePathname p = p"
  by (induction p) (auto simp: normalizePathname_def)

lemma last_folderPathnameOf: "last (folderPathnameOf segs) = CHR ''/''"
  by (induction segs rule: rev_induct) (simp_all add: folderPathnameOf_def)

lemma asAbsoluteFolder_folderPathnameOf:
  assumes "\<forall>s \<in> set segs. plainFolderName s"
  shows "asAbsoluteFolder (folderPathnameOf segs) = Inr (FolderItem (folderPathnameOf segs) True)"
proof -
  let ?p = "folderPathnameOf segs"
  have plain: "\<forall>s \<in> set segs. plainName s" using assms by (simp add: plainFolderName_def)
  have ne: "?p \<noteq> []" "hd ?p = CHR ''/''" "?p \<noteq> ''.''" "?p \<noteq> ''..''"
    by (simp_all add: folderPathnameOf_def)
  show ?thesis
    using ne matchesNavigation_folderPathnameOf [OF assms] last_folderPathnameOf [of segs]
      normalizePathname_id [OF backslash_folderPathnameOf [OF plain]]
    by (simp add: asAbsoluteFolder_def isAbsolutePathname_def isResolvedPathname_def
        isFolderPathname_def)
qed

lemma lastIndexOf_append:
  "c \<notin> set nm \<Longrightarrow> lastIndexOf (p @ c # nm) c = int (length p)"
proof -
  assume "c \<notin> set nm"
  then have "takeWhile (\<lambda>x. x \<noteq> c) (rev nm) = rev nm"
    by (auto simp: takeWhile_eq_all_conv)
  then have "takeWhile (\<lambda>x. x \<noteq> c) (rev (p @ c # nm)) = rev nm"
    by (simp add: takeWhile_tail)
  then show ?thesis
    by (simp add: lastIndexOf_def)
qed

lemma asAbsoluteFile_child:
  assumes segs: "\<forall>s \<in> set segs. plainFolderName s" and nm: "plainName nm"
  shows "asAbsoluteFile (folderPathnameOf segs @ nm) =
           Inr (FileItem (folderPathnameOf segs) True
                  (fst (parseFullFileName nm)) (snd (parseFullFileName nm)))"
proof -
  let ?root = "folderPathnameOf segs"
  let ?p = "?root @ nm"
  have plain: "\<forall>s \<in> set segs. plainName s" using segs by (simp add: plainFolderName_def)
  from nm have n: "nm \<noteq> []" "CHR ''/'' \<notin> set nm" "CHR 0x5C \<notin> set nm"
    by (simp_all add: plainName_def)
  have lastnm: "last nm \<noteq> CHR ''/''" "last nm \<noteq> CHR 0x5C"
    using n by (auto dest: last_in_set)
  have abs: "isAbsolutePathname ?p" by (simp add: isAbsolutePathname_def folderPathnameOf_def)
  have nodots: "?p \<noteq> ''.''" "?p \<noteq> ''..''" by (simp_all add: folderPathnameOf_def)
  have "\<not> matchesNavigation ?p"
    using matchesNavigation_folderPathnameOf [OF segs] matchesNavigation_no_separator [OF n(2,3)]
      last_folderPathnameOf [of segs]
    by (simp add: matchesNavigation_append)
  with nodots have res: "isResolvedPathname ?p" by (simp add: isResolvedPathname_def)
  have nofolder: "\<not> isFolderPathname ?p"
    using nodots n lastnm by (simp add: isFolderPathname_def)
  have norm: "normalizePathname ?p = ?p"
    using backslash_folderPathnameOf [OF plain] n by (simp add: normalizePathname_id)
  obtain r where r: "?root = r @ ''/''"
    using last_folderPathnameOf [of segs]
    by (metis append_butlast_last_id folderPathnameOf_def list.distinct(1))
  have idx: "lastIndexOf ?p (CHR ''/'') = int (length ?root) - 1"
    using lastIndexOf_append [OF n(2), of r] by (simp add: r)
  show ?thesis
    using abs res nofolder
    by (simp add: asAbsoluteFile_def Let_def norm idx NORMAL_SEPARATOR_def substring_def
        slice_def)
qed

section \<open>Properties of the folder walker\<close>

lemma folderWalker_NextItem_Nil: "folderWalker_NextItem fs [] f = (Inr None, [])"
  by (simp add: folderWalker_NextItem.simps)

lemma folderWalker_NextItem_take:
  assumes "stat fs p = Inr st" and "f = None \<or> \<not> the f p st"
  shows "folderWalker_NextItem fs (ps @ [p]) f = (Inr (Some (p, st)), ps)"
  using assms by (subst folderWalker_NextItem.simps) auto

lemma folderWalker_NextItem_skip:
  assumes "stat fs p = Inr st" and "f = Some g" and "g p st"
  shows "folderWalker_NextItem fs (ps @ [p]) f = folderWalker_NextItem fs ps f"
  using assms by (subst folderWalker_NextItem.simps) auto

subsection \<open>A root folder that does not exist\<close>

text \<open>
  Claim C8. When the root folder does not exist, that is when reading it fails with an error
  whose code is \<^verbatim>\<open>ENOENT\<close>, the walker is built with an empty stack; its first \<^verbatim>\<open>_read\<close> ends
  the stream, so that the enumeration yields no item and stops with no error.
\<close>

theorem missing_root_yields_nothing:
  assumes "readdir fs (folderPathname root) = Inl reason"
    and "instanceofError reason"
    and "map_of (props reason) ''code'' = Some ''ENOENT''"
  shows "\<exists>w. walkFolder fs root opts = Inr w \<and> absoluteResolvedPathnames w = [] \<and>
           fst (read fs w) = Ended \<and>
           (\<forall>n. enumerate_items (Suc n) fs w = ([], Some Ended))"
proof -
  let ?w = "\<lparr>absoluteResolvedPathnames = [], options = opts, absoluteLengthLimit = None\<rparr>"
  have w: "walkFolder fs root opts = Inr ?w"
    using assms by (simp add: walkFolder_def newFolderWalker_def doesFolderExistSync_def)
  have r: "read fs ?w = (Ended, ?w)"
    by (simp add: read_def folderWalker_NextItem_Nil)
  then have "enumerate_items (Suc n) fs ?w = ([], Some Ended)" for n
    by simp
  with w r show ?thesis by simp
qed

theorem missing_root_yields_nothing_witness:
  "readdir exampleFs (folderPathname (FolderItem ''/q/'' True)) = Inl enoent \<and>
   instanceofError enoent \<and>
   map_of (props enoent) ''code'' = Some ''ENOENT'' \<and>
   map_sum id (\<lambda>w. enumerate_items 5 exampleFs w)
     (walkFolder exampleFs (FolderItem ''/q/'' True) DEFAULT_FOLDER_WALKER_OPTIONS)
     = Inr ([], Some Ended)"
proof -
  have a: "readdir exampleFs (folderPathname (FolderItem ''/q/'' True)) = Inl enoent"
    by (simp add: exampleFs_def)
  have b: "instanceofError enoent" by (simp add: enoent_def instanceofError_def)
  have c: "map_of (props enoent) ''code'' = Some ''ENOENT''" by (simp add: enoent_def)
  from missing_root_yields_nothing [OF a b c, of DEFAULT_FOLDER_WALKER_OPTIONS]
  obtain w where "walkFolder exampleFs (FolderItem ''/q/'' True) DEFAULT_FOLDER_WALKER_OPTIONS = Inr w"
    and "enumerate_items (Suc 4) exampleFs w = ([], Some Ended)"
    by blast
  with a b c show ?thesis by (simp add: eval_nat_numeral)
qed

subsection \<open>The item filter\<close>

lemma read_skips:
  assumes "absoluteResolvedPathnames w = ps @ [p]"
    and "stat fs p = Inr st" and "itemFilter (options w) = Some g" and "g p st"
  shows "read fs w = read fs (w\<lparr>absoluteResolvedPathnames := ps\<rparr>)"
  using assms folderWalker_NextItem_skip [of fs p st "Some g" g ps]
  by (simp add: read_def split: prod.splits sum.splits option.splits)

lemma read_file:
  assumes "absoluteResolvedPathnames w = ps @ [p]"
    and "stat fs p = Inr st" and "itemFilter (options w) = None \<or> \<not> the (itemFilter (options w)) p st"
    and "statsType st = RegularFile"
  shows "read fs w = (pushOrDestroy (asAbsoluteFile p), w\<lparr>absoluteResolvedPathnames := ps\<rparr>)"
  using assms folderWalker_NextItem_take [of fs p st "itemFilter (options w)" ps]
  by (simp add: read_def)

text \<open>
  Claim C4, as amended. For an enumeration configured with an \<^verbatim>\<open>itemFilter\<close>, an entry popped
  from the stack for which the filter returns true is skipped without producing an item:
  the walker goes on with the stack below it. A popped file for which the filter returns
  false stops the loop and is emitted as a file item (the stream is destroyed instead when
  its pathname is not one \<^verbatim>\<open>asAbsoluteFile\<close> takes).
\<close>

theorem itemFilter_true_skips:
  assumes "absoluteResolvedPathnames w = ps @ [p]"
    and "stat fs p = Inr st"
    and "itemFilter (options w) = Some g"
  shows "(g p st \<longrightarrow>
            folderWalker_NextItem fs (ps @ [p]) (Some g) = folderWalker_NextItem fs ps (Some g) \<and>
            read fs w = read fs (w\<lparr>absoluteResolvedPathnames := ps\<rparr>)) \<and>
         (\<not> g p st \<and> statsType st = RegularFile \<longrightarrow>
            folderWalker_NextItem fs (ps @ [p]) (Some g) = (Inr (Some (p, st)), ps) \<and>
            read fs w = (pushOrDestroy (asAbsoluteFile p), w\<lparr>absoluteResolvedPathnames := ps\<rparr>) \<and>
            (\<forall>item. asAbsoluteFile p = Inr item \<longrightarrow>
               fst (read fs w) = Pushed item \<and> (\<exists>f a n x. item = FileItem f a n x)))"
proof -
  have skip: "folderWalker_NextItem fs (ps @ [p]) (Some g) = folderWalker_NextItem fs ps (Some g)"
    "read fs w = read fs (w\<lparr>absoluteResolvedPathnames := ps\<rparr>)" if "g p st"
    using that assms folderWalker_NextItem_skip [of fs p st "Some g" g ps] read_skips [of w ps p fs st g]
    by simp_all
  have take: "folderWalker_NextItem fs (ps @ [p]) (Some g) = (Inr (Some (p, st)), ps)"
    "read fs w = (pushOrDestroy (asAbsoluteFile p), w\<lparr>absoluteResolvedPathnames := ps\<rparr>)"
    if "\<not> g p st" "statsType st = RegularFile"
    using that assms folderWalker_NextItem_take [of fs p st "Some g" ps] read_file [of w ps p fs st]
    by simp_all
  have item: "fst (read fs w) = Pushed item \<and> (\<exists>f a n x. item = FileItem f a n x)"
    if "\<not> g p st" "statsType st = RegularFile" "asAbsoluteFile p = Inr item" for item
    using take(2) [OF that(1,2)] that(3)
    by (auto simp: pushOrDestroy_def asAbsoluteFile_def Let_def split: if_splits)
  show ?thesis using skip take item by blast
qed


theorem itemFilter_true_skips_witness:
  "makeTestFileChecker 10000 5000 ''/t/old.js'' \<lparr>statsType = RegularFile, mtime = 1000\<rparr> \<and>
   \<not> makeTestFileChecker 10000 5000 ''/t/new.js'' \<lparr>statsType = RegularFile, mtime = 9000\<rparr> \<and>
   fst (read agedFs (walkerAt [''/t/new.js'', ''/t/old.js''] (Some (makeTestFileChecker 10000 5000))))
     = Pushed (FileItem ''/t/'' True ''new'' ''js'')"
proof -
  let ?g = "makeTestFileChecker 10000 5000"
  let ?old = "\<lparr>statsType = RegularFile, mtime = 1000\<rparr>"
  let ?new = "\<lparr>statsType = RegularFile, mtime = 9000\<rparr>"
  let ?w = "walkerAt [''/t/new.js'', ''/t/old.js''] (Some ?g)"
  let ?w' = "?w\<lparr>absoluteResolvedPathnames := [''/t/new.js'']\<rparr>"
  have old: "?g ''/t/old.js'' ?old" and new: "\<not> ?g ''/t/new.js'' ?new"
    by (simp_all add: makeTestFileChecker_def)
  have s1: "absoluteResolvedPathnames ?w = [''/t/new.js''] @ [''/t/old.js'']"
    and f1: "itemFilter (options ?w) = Some ?g"
    by (simp_all add: walkerAt_def)
  have st1: "stat agedFs ''/t/old.js'' = Inr ?old" by (simp add: agedFs_def)
  have s2: "absoluteResolvedPathnames ?w' = [] @ [''/t/new.js'']"
    and f2: "itemFilter (options ?w') = Some ?g"
    by (simp_all add: walkerAt_def)
  have st2: "stat agedFs ''/t/new.js'' = Inr ?new" by (simp add: agedFs_def)
  have item: "asAbsoluteFile ''/t/new.js'' = Inr (FileItem ''/t/'' True ''new'' ''js'')"
    by (simp add: asAbsoluteFile_def isAbsolutePathname_def isResolvedPathname_def
        isFolderPathname_def normalizePathname_def NORMAL_SEPARATOR_def lastIndexOf_def
        substring_def slice_def parseFullFileName_def Let_def)
  from itemFilter_true_skips [OF s1 st1 f1] old
  have "read agedFs ?w = read agedFs ?w'" by blast
  moreover from itemFilter_true_skips [OF s2 st2 f2] new item
  have "fst (read agedFs ?w') = Pushed (FileItem ''/t/'' True ''new'' ''js'')"
    by (simp add: pushOrDestroy_def)
  ultimately show ?thesis using old new by simp
qed

text \<open>
  The claim as it is stated fails for a predicate in the usual sense, one that returns false
  for what it rejects: the file that \<open>rejectEverything\<close> rejects is emitted, and the file
  that \<open>acceptEverything\<close> accepts is skipped, the stream ending with no item.
\<close>

theorem itemFilter_polarity_counterexample:
  "rejectEverything ''/r/a.txt'' fileStats = False \<and>
   fst (read exampleFs (walkerAt [''/r/a.txt''] (Some rejectEverything)))
     = Pushed (FileItem ''/r/'' True ''a'' ''txt'') \<and>
   acceptEverything ''/r/a.txt'' fileStats = True \<and>
   fst (read exampleFs (walkerAt [''/r/a.txt''] (Some acceptEverything))) = Ended"
  by code_simp

subsection \<open>Reading a directory\<close>

lemma read_directory_leaf:
  assumes "absoluteResolvedPathnames w = ps @ [p]"
    and "stat fs p = Inr st"
    and "itemFilter (options w) = None \<or> \<not> the (itemFilter (options w)) p st"
    and "statsType st = Directory"
    and "absoluteLengthLimit w = Some limit" and "limit < int (length (split_js p sep))"
  shows "read fs w = (pushOrDestroy (asAbsoluteFolder p), w\<lparr>absoluteResolvedPathnames := ps\<rparr>)"
  using assms folderWalker_NextItem_take [of fs p st "itemFilter (options w)" ps]
  by (simp add: read_def)

lemma read_directory_expand:
  assumes "absoluteResolvedPathnames w = ps @ [p]"
    and "stat fs p = Inr st"
    and "itemFilter (options w) = None \<or> \<not> the (itemFilter (options w)) p st"
    and "statsType st = Directory"
    and "absoluteLengthLimit w = None
           \<or> (\<exists>limit. absoluteLengthLimit w = Some limit \<and> int (length (split_js p sep)) \<le> limit)"
    and "readdir fs p = Inr fsDirents"
    and "asAbsoluteFolder p = Inr item"
  shows "read fs w =
           (Pushed item,
            w\<lparr>absoluteResolvedPathnames :=
                foldl (pushDirent p) ps (processDirents (options w) fsDirents)\<rparr>)"
  using assms folderWalker_NextItem_take [of fs p st "itemFilter (options w)" ps]
  by (auto simp: read_def)

lemma foldl_pushDirent:
  "foldl (pushDirent p) stack ds = stack @ map (childPathname p) (filter isPushed ds)"
  by (induction ds arbitrary: stack)
     (auto simp: pushDirent_def childPathname_def isPushed_def Let_def)

lemma childPathname_plain:
  assumes "\<forall>s \<in> set segs. plainName s" and "plainName (name d)"
  shows "childPathname (folderPathnameOf segs) d =
           (if direntType d = Directory then folderPathnameOf segs @ name d @ ''/''
            else folderPathnameOf segs @ name d)"
proof -
  have "CHR ''/'' \<notin> set (name d)" "name d \<noteq> []"
    using assms(2) by (simp_all add: plainName_def)
  then have "last (name d) \<noteq> CHR ''/''" by (auto dest: last_in_set)
  then show ?thesis
    using \<open>name d \<noteq> []\<close>
    by (simp add: childPathname_def join_folderPathnameOf [OF assms] endsWith_def sep_def)
qed

lemma set_insort_cmp: "set (insort_cmp cmp x xs) = insert x (set xs)"
  by (induction xs) auto

lemma set_sort_js: "set (sort_js cmp xs) = set xs"
  by (induction xs) (simp_all add: sort_js_def set_insort_cmp)

lemma set_filter_js: "set (filter_js f xs) \<subseteq> set xs"
  by (auto simp: filter_js_def dest: set_zip_leftD)

lemma set_processDirents: "set (processDirents opts ds) \<subseteq> set ds"
  using set_filter_js [of _ ds]
  by (auto simp: processDirents_def Let_def set_sort_js split: option.splits)

lemma enumerate_items_end:
  "absoluteResolvedPathnames w = [] \<Longrightarrow> enumerate_items (Suc n) fs w = ([], Some Ended)"
  by (simp add: read_def folderWalker_NextItem_Nil)

lemma enumerate_leaves:
  assumes "itemFilter (options w) = None"
    and "absoluteResolvedPathnames w = map fst leaves"
    and "\<forall>(p, item) \<in> set leaves.
           \<exists>st. stat fs p = Inr st \<and>
             ((statsType st = RegularFile \<and> asAbsoluteFile p = Inr item) \<or>
              (statsType st = Directory \<and> asAbsoluteFolder p = Inr item \<and>
               (\<exists>limit. absoluteLengthLimit w = Some limit \<and> limit < int (length (split_js p sep)))))"
  shows "enumerate_items (Suc (length leaves + n)) fs w = (rev (map snd leaves), Some Ended)"
  using assms
proof (induction leaves arbitrary: w rule: rev_induct)
  case Nil
  then show ?case by (simp add: enumerate_items_end del: enumerate_items.simps)
next
  case (snoc leaf leaves)
  obtain p item where leaf: "leaf = (p, item)" by (cases leaf)
  let ?w = "w\<lparr>absoluteResolvedPathnames := map fst leaves\<rparr>"
  from snoc.prems(3) leaf obtain st where st: "stat fs p = Inr st"
    and kind: "(statsType st = RegularFile \<and> asAbsoluteFile p = Inr item) \<or>
              (statsType st = Directory \<and> asAbsoluteFolder p = Inr item \<and>
               (\<exists>limit. absoluteLengthLimit w = Some limit \<and> limit < int (length (split_js p sep))))"
    by auto
  have stack: "absoluteResolvedPathnames w = map fst leaves @ [p]"
    using snoc.prems(2) leaf by simp
  have step: "read fs w = (Pushed item, ?w)"
  proof (cases "statsType st = RegularFile")
    case True
    with kind have "asAbsoluteFile p = Inr item" by auto
    with read_file [OF stack st _ True] snoc.prems(1) show ?thesis
      by (simp add: pushOrDestroy_def)
  next
    case False
    with kind obtain limit where d: "statsType st = Directory" "asAbsoluteFolder p = Inr item"
      "absoluteLengthLimit w = Some limit" "limit < int (length (split_js p sep))"
      by auto
    with read_directory_leaf [OF stack st _ d(1) d(3) d(4)] snoc.prems(1) show ?thesis
      by (simp add: pushOrDestroy_def)
  qed
  have rest: "enumerate_items (Suc (length leaves + n)) fs ?w = (rev (map snd leaves), Some Ended)"
    using snoc.prems by (intro snoc.IH) auto
  have "enumerate_items (Suc (Suc (length leaves + n))) fs w
          = (item # rev (map snd leaves), Some Ended)"
    by (subst enumerate_items.simps) (simp add: step rest del: enumerate_items.simps)
  then show ?case using leaf by simp
qed

subsection \<open>The depth limit\<close>

lemma folderWalker_NextItem_readdir:
  "folderWalker_NextItem (fs\<lparr>readdir := r\<rparr>) ps f = folderWalker_NextItem fs ps f"
proof (induction fs ps f rule: folderWalker_NextItem.induct)
  case (1 fs ps f)
  show ?case
    apply (subst folderWalker_NextItem.simps)
    apply (subst (2) folderWalker_NextItem.simps)
    using 1 by (auto simp: Let_def split: sum.splits)
qed

lemma depth_limited_directory:
  assumes "folderWalker_NextItem fs (absoluteResolvedPathnames w) (itemFilter (options w))
             = (Inr (Some (p, st)), stack)"
    and "statsType st = Directory"
    and "absoluteLengthLimit w = Some limit"
    and "limit < int (length (split_js p sep))"
  shows "read fs w = (pushOrDestroy (asAbsoluteFolder p), w\<lparr>absoluteResolvedPathnames := stack\<rparr>)"
    and "read (fs\<lparr>readdir := r\<rparr>) w = read fs w"
  using assms by (simp_all add: read_def folderWalker_NextItem_readdir)

lemma newFolderWalker_limit:
  assumes "walkFolder fs root opts = Inr w" and "absoluteResolvedPathnames w \<noteq> []"
    and "depthLimit opts = Some n" and "0 \<le> n"
  shows "absoluteLengthLimit w = Some (int (length (split_js (folderPathname root) sep)) + n)"
  using assms
  by (auto simp: walkFolder_def newFolderWalker_def Let_def sep_def NORMAL_SEPARATOR_def
      split: sum.splits option.splits)

lemma shallow_enumeration:
  assumes segs: "\<forall>s \<in> set segs. plainFolderName s"
    and root: "folderPathname root = folderPathnameOf segs"
    and limit: "depthLimit opts = Some 0" and nofilter: "itemFilter opts = None"
    and rootstat: "stat fs (folderPathnameOf segs) = Inr st0" "statsType st0 = Directory"
    and rd: "readdir fs (folderPathnameOf segs) = Inr ds"
    and names: "\<forall>d \<in> set ds. plainName (name d) \<and>
                  (direntType d = Directory \<longrightarrow> plainFolderName (name d))"
    and stats: "\<forall>d \<in> set ds. isPushed d \<longrightarrow>
                  (\<exists>st. stat fs (childPathname (folderPathnameOf segs) d) = Inr st \<and>
                        statsType st = direntType d)"
  shows "\<exists>w. walkFolder fs root opts = Inr w \<and>
           enumerate_items (Suc (Suc (length (filter isPushed (processDirents opts ds)) + n))) fs w
             = (FolderItem (folderPathnameOf segs) True
                  # rev (map (childItem (folderPathnameOf segs))
                         (filter isPushed (processDirents opts ds))),
                Some Ended)"
proof -
  let ?rootp = "folderPathnameOf segs"
  let ?pushed = "filter isPushed (processDirents opts ds)"
  let ?L = "int (length segs) + 2"
  let ?w0 = "\<lparr>absoluteResolvedPathnames = [?rootp], options = opts,
              absoluteLengthLimit = Some ?L\<rparr>"
  let ?w1 = "?w0\<lparr>absoluteResolvedPathnames := map (childPathname ?rootp) ?pushed\<rparr>"
  let ?leaves = "map (\<lambda>d. (childPathname ?rootp d, childItem ?rootp d)) ?pushed"
  have plain: "\<forall>s \<in> set segs. plainName s" using segs by (simp add: plainFolderName_def)
  have len: "length (split_js ?rootp (CHR ''/'')) = length segs + 2"
    by (rule length_split_js_folderPathnameOf [OF plain])
  have w0: "walkFolder fs root opts = Inr ?w0"
    using root rd limit len
    by (simp add: walkFolder_def newFolderWalker_def doesFolderExistSync_def Let_def
        NORMAL_SEPARATOR_def)
  have step0: "read fs ?w0 = (Pushed (FolderItem ?rootp True), ?w1)"
    using read_directory_expand [of ?w0 "[]" ?rootp fs st0 ds "FolderItem ?rootp True"]
      rootstat rd nofilter len asAbsoluteFolder_folderPathnameOf [OF segs]
    by (simp add: sep_def foldl_pushDirent)
  have leaf: "\<exists>st. stat fs p = Inr st \<and>
             ((statsType st = RegularFile \<and> asAbsoluteFile p = Inr item) \<or>
              (statsType st = Directory \<and> asAbsoluteFolder p = Inr item \<and>
               (\<exists>limit. absoluteLengthLimit ?w1 = Some limit \<and> limit < int (length (split_js p sep)))))"
    if "(p, item) \<in> set ?leaves" for p item
  proof -
    from that obtain d where d: "d \<in> set ?pushed" "p = childPathname ?rootp d"
      "item = childItem ?rootp d"
      by auto
    then have dds: "d \<in> set ds" and pushed: "isPushed d"
      using set_processDirents [of opts ds] by auto
    from names dds have nm: "plainName (name d)"
      and fnm: "direntType d = Directory \<longrightarrow> plainFolderName (name d)"
      by auto
    from stats dds pushed obtain st where st: "stat fs p = Inr st" "statsType st = direntType d"
      using d(2) by auto
    have path: "p = (if direntType d = Directory then ?rootp @ name d @ ''/'' else ?rootp @ name d)"
      using d(2) childPathname_plain [OF plain nm] by simp
    show ?thesis
    proof (cases "direntType d = RegularFile")
      case True
      then have "asAbsoluteFile p = Inr item"
        using path d(3) asAbsoluteFile_child [OF segs nm] by (simp add: childItem_def)
      with st True show ?thesis by auto
    next
      case False
      with pushed have dir: "direntType d = Directory" by (simp add: isPushed_def)
      with fnm segs have segs': "\<forall>s \<in> set (segs @ [name d]). plainFolderName s" by simp
      then have plain': "\<forall>s \<in> set (segs @ [name d]). plainName s"
        by (simp add: plainFolderName_def)
      have p': "p = folderPathnameOf (segs @ [name d])"
        using path dir by (simp add: folderPathnameOf_snoc)
      have "asAbsoluteFolder p = Inr item"
        using asAbsoluteFolder_folderPathnameOf [OF segs'] d(3) dir
        by (simp add: p' childItem_def folderPathnameOf_snoc)
      moreover have "?L < int (length (split_js p sep))"
        using length_split_js_folderPathnameOf [OF plain'] by (simp add: p' sep_def)
      ultimately show ?thesis using st dir by auto
    qed
  qed
  have run1: "enumerate_items (Suc (length ?leaves + n)) fs ?w1 = (rev (map snd ?leaves), Some Ended)"
    apply (rule enumerate_leaves)
    using nofilter leaf by (auto simp: comp_def)
  have items: "rev (map snd ?leaves) = rev (map (childItem ?rootp) ?pushed)"
    by (simp add: comp_def)
  have "enumerate_items (Suc (Suc (length ?pushed + n))) fs ?w0
          = (FolderItem ?rootp True # rev (map (childItem ?rootp) ?pushed), Some Ended)"
    apply (subst enumerate_items.simps)
    using run1 items by (simp add: step0 del: enumerate_items.simps)
  with w0 show ?thesis by blast
qed


text \<open>
  A walker built for an existing root with \<^verbatim>\<open>depthLimit = n\<close>, \<open>0 \<le> n\<close>, has the
  limit \<open>n\<close> plus the number of segments of the root pathname. Whenever the entry a \<^verbatim>\<open>_read\<close>
  takes from the stack is a directory with more segments than the limit, the directory is
  still emitted as a folder item, nothing is pushed on the stack, and the file system is not
  asked for its content: the result is the same whatever \<open>readdir\<close> would answer. With
  \<^verbatim>\<open>depthLimit = 0\<close>, no item filter, and a root \<open>/s1/.../sk/\<close> whose entries have plain
  names and are what \<open>stat\<close> says they are, the enumeration emits the root, which it has
  expanded, then each file and each directory of the root as a leaf, in the reverse of the
  order they were pushed in, and ends: nothing below a child directory is visited.
\<close>

theorem depth_limit_stops_expansion:
  "(walkFolder fs root opts = Inr w0 \<and> absoluteResolvedPathnames w0 \<noteq> [] \<and>
      depthLimit opts = Some n \<and> 0 \<le> n \<longrightarrow>
      absoluteLengthLimit w0 = Some (int (length (split_js (folderPathname root) sep)) + n)) \<and>
   (folderWalker_NextItem fs (absoluteResolvedPathnames w) (itemFilter (options w))
        = (Inr (Some (p, st)), stack) \<and>
      statsType st = Directory \<and>
      absoluteLengthLimit w = Some limit \<and> limit < int (length (split_js p sep)) \<longrightarrow>
      read fs w = (pushOrDestroy (asAbsoluteFolder p), w\<lparr>absoluteResolvedPathnames := stack\<rparr>) \<and>
      (\<forall>item. asAbsoluteFolder p = Inr item \<longrightarrow> fst (read fs w) = Pushed item) \<and>
      read (fs\<lparr>readdir := r\<rparr>) w = read fs w) \<and>
   ((\<forall>s \<in> set segs. plainFolderName s) \<and>
      folderPathname root' = folderPathnameOf segs \<and>
      depthLimit opts' = Some 0 \<and> itemFilter opts' = None \<and>
      stat fs' (folderPathnameOf segs) = Inr st0 \<and> statsType st0 = Directory \<and>
      readdir fs' (folderPathnameOf segs) = Inr ds \<and>
      (\<forall>d \<in> set ds. plainName (name d) \<and>
         (direntType d = Directory \<longrightarrow> plainFolderName (name d))) \<and>
      (\<forall>d \<in> set ds. isPushed d \<longrightarrow>
         (\<exists>st. stat fs' (childPathname (folderPathnameOf segs) d) = Inr st \<and>
               statsType st = direntType d)) \<longrightarrow>
      (\<exists>w. walkFolder fs' root' opts' = Inr w \<and>
         enumerate_items (Suc (Suc (length (filter isPushed (processDirents opts' ds)) + k))) fs' w
           = (FolderItem (folderPathnameOf segs) True
                # rev (map (childItem (folderPathnameOf segs))
                       (filter isPushed (processDirents opts' ds))),
              Some Ended)))"
proof (intro conjI impI)
  assume "walkFolder fs root opts = Inr w0 \<and> absoluteResolvedPathnames w0 \<noteq> [] \<and>
      depthLimit opts = Some n \<and> 0 \<le> n"
  then show "absoluteLengthLimit w0 = Some (int (length (split_js (folderPathname root) sep)) + n)"
    using newFolderWalker_limit [of fs root opts w0 n] by blast
next
  assume a: "folderWalker_NextItem fs (absoluteResolvedPathnames w) (itemFilter (options w))
        = (Inr (Some (p, st)), stack) \<and>
      statsType st = Directory \<and>
      absoluteLengthLimit w = Some limit \<and> limit < int (length (split_js p sep))"
  then show r: "read fs w = (pushOrDestroy (asAbsoluteFolder p), w\<lparr>absoluteResolvedPathnames := stack\<rparr>)"
    using depth_limited_directory(1) [of fs w p st stack limit] by blast
  show "\<forall>item. asAbsoluteFolder p = Inr item \<longrightarrow> fst (read fs w) = Pushed item"
    by (simp add: r pushOrDestroy_def)
  from a show "read (fs\<lparr>readdir := r\<rparr>) w = read fs w"
    using depth_limited_directory(2) [of fs w p st stack limit r] by blast
next
  assume "(\<forall>s \<in> set segs. plainFolderName s) \<and>
      folderPathname root' = folderPathnameOf segs \<and>
      depthLimit opts' = Some 0 \<and> itemFilter opts' = None \<and>
      stat fs' (folderPathnameOf segs) = Inr st0 \<and> statsType st0 = Directory \<and>
      readdir fs' (folderPathnameOf segs) = Inr ds \<and>
      (\<forall>d \<in> set ds. plainName (name d) \<and>
         (direntType d = Directory \<longrightarrow> plainFolderName (name d))) \<and>
      (\<forall>d \<in> set ds. isPushed d \<longrightarrow>
         (\<exists>st. stat fs' (childPathname (folderPathnameOf segs) d) = Inr st \<and>
               statsType st = direntType d))"
  then show "\<exists>w. walkFolder fs' root' opts' = Inr w \<and>
         enumerate_items (Suc (Suc (length (filter isPushed (processDirents opts' ds)) + k))) fs' w
           = (FolderItem (folderPathnameOf segs) True
                # rev (map (childItem (folderPathnameOf segs))
                       (filter isPushed (processDirents opts' ds))),
              Some Ended)"
    using shallow_enumeration [of segs root' opts' fs' st0 ds k] by blast
qed

lemma parseFullFileName_a_txt: "parseFullFileName ''a.txt'' = (''a'', ''txt'')"
  by (simp add: parseFullFileName_def lastIndexOf_def substring_def slice_def Let_def)

lemma processDirents_b_a:
  "ds = [\<lparr>name = ''b'', direntType = Directory\<rparr>, \<lparr>name = ''a.txt'', direntType = RegularFile\<rparr>]
     \<or> ds = [\<lparr>name = ''a.txt'', direntType = RegularFile\<rparr>, \<lparr>name = ''b'', direntType = Directory\<rparr>]
   \<Longrightarrow> processDirents DEFAULT_FOLDER_WALKER_OPTIONS ds
         = [\<lparr>name = ''b'', direntType = Directory\<rparr>, \<lparr>name = ''a.txt'', direntType = RegularFile\<rparr>]"
  by (auto simp: processDirents_def DEFAULT_FOLDER_WALKER_OPTIONS_def sort_js_def
      sortFilesFirstThenAlphabetically_def)

theorem depth_limit_stops_expansion_witness:
  "walkFolder deepFs (FolderItem ''/r/'' True) (DEFAULT_FOLDER_WALKER_OPTIONS\<lparr>depthLimit := Some 0\<rparr>)
     = Inr shallowWalker \<and>
   enumerate_items 4 deepFs shallowWalker
     = ([FolderItem ''/r/'' True, FileItem ''/r/'' True ''a'' ''txt'', FolderItem ''/r/b/'' True],
        Some Ended)"
proof -
  let ?opts = "DEFAULT_FOLDER_WALKER_OPTIONS\<lparr>depthLimit := Some 0\<rparr>"
  let ?ds = "[\<lparr>name = ''b'', direntType = Directory\<rparr>, \<lparr>name = ''a.txt'', direntType = RegularFile\<rparr>]"
  have rp: "folderPathnameOf [''r''] = ''/r/''" by (simp add: folderPathnameOf_def)
  have w: "walkFolder deepFs (FolderItem ''/r/'' True) ?opts = Inr shallowWalker"
    by (simp add: walkFolder_def newFolderWalker_def doesFolderExistSync_def deepFs_def
        shallowWalker_def DEFAULT_FOLDER_WALKER_OPTIONS_def NORMAL_SEPARATOR_def Let_def)
  have pd: "processDirents ?opts ?ds = ?ds"
    by (simp add: processDirents_def DEFAULT_FOLDER_WALKER_OPTIONS_def sort_js_def
        sortFilesFirstThenAlphabetically_def)
  have h: "(\<forall>s \<in> set [''r'']. plainFolderName s) \<and>
      folderPathname (FolderItem ''/r/'' True) = folderPathnameOf [''r''] \<and>
      depthLimit ?opts = Some 0 \<and> itemFilter ?opts = None \<and>
      stat deepFs (folderPathnameOf [''r'']) = Inr dirStats \<and> statsType dirStats = Directory \<and>
      readdir deepFs (folderPathnameOf [''r'']) = Inr ?ds \<and>
      (\<forall>d \<in> set ?ds. plainName (name d) \<and>
         (direntType d = Directory \<longrightarrow> plainFolderName (name d))) \<and>
      (\<forall>d \<in> set ?ds. isPushed d \<longrightarrow>
         (\<exists>st. stat deepFs (childPathname (folderPathnameOf [''r'']) d) = Inr st \<and>
               statsType st = direntType d))"
    by (simp add: rp plainFolderName_def plainName_def DEFAULT_FOLDER_WALKER_OPTIONS_def
        deepFs_def dirStats_def fileStats_def isPushed_def childPathname_def join_def
        path_normalize_def normalizeSegment_def endsWith_def sep_def Let_def)
  from depth_limit_stops_expansion [where segs = "[''r'']" and root' = "FolderItem ''/r/'' True"
      and opts' = ?opts and fs' = deepFs and ?st0.0 = dirStats and ds = ?ds and k = 0] h
  obtain w' where w': "walkFolder deepFs (FolderItem ''/r/'' True) ?opts = Inr w'"
    and e: "enumerate_items (Suc (Suc (length (filter isPushed (processDirents ?opts ?ds)) + 0))) deepFs w'
           = (FolderItem (folderPathnameOf [''r'']) True
                # rev (map (childItem (folderPathnameOf [''r'']))
                       (filter isPushed (processDirents ?opts ?ds))),
              Some Ended)"
    by blast
  from w w' have "w' = shallowWalker" by simp
  with e have "enumerate_items 4 deepFs shallowWalker
     = ([FolderItem ''/r/'' True, FileItem ''/r/'' True ''a'' ''txt'', FolderItem ''/r/b/'' True],
        Some Ended)"
    by (simp add: pd rp isPushed_def childItem_def parseFullFileName_a_txt eval_nat_numeral
        del: enumerate_items.simps)
  with w show ?thesis by simp
qed

text \<open>
  Claim C5. A directory with more segments than the limit is emitted and not read, as the
  claim says; but with \<^verbatim>\<open>depthLimit = 0\<close> the direct child directories of the root are leaf
  items only when the root pathname has no empty segment. The constructor counts the
  segments of the root pathname as it is given, and \<^verbatim>\<open>join\<close> removes the empty segments from
  the pathnames of the children. For the root \<^verbatim>\<open>/r//\<close>, which \<^verbatim>\<open>asAbsoluteFolder\<close> accepts
  unchanged, the limit is 4; the child \<^verbatim>\<open>/r/b/\<close> has four segments as well, which is not more
  than the limit: it is read, and its file \<^verbatim>\<open>c.txt\<close>, two levels below the root, is
  visited. The same folder walked from \<^verbatim>\<open>/r/\<close> gives the root, \<^verbatim>\<open>a.txt\<close> and \<^verbatim>\<open>b/\<close> only.
\<close>

theorem depth_limit_root_with_empty_segment:
  "asAbsoluteFolder ''/r//'' = Inr (FolderItem ''/r//'' True) \<and>
   walkFolder lenientFs (FolderItem ''/r//'' True)
       (DEFAULT_FOLDER_WALKER_OPTIONS\<lparr>depthLimit := Some 0\<rparr>)
     = Inr doubledWalker \<and>
   absoluteLengthLimit doubledWalker = Some 4 \<and>
   int (length (split_js ''/r/b/'' sep)) = 4 \<and>
   enumerate_items 6 lenientFs doubledWalker
     = ([FolderItem ''/r//'' True, FileItem ''/r/'' True ''a'' ''txt'', FolderItem ''/r/b/'' True,
         FileItem ''/r/b/'' True ''c'' ''txt''],
        Some Ended) \<and>
   walkFolder lenientFs (FolderItem ''/r/'' True)
       (DEFAULT_FOLDER_WALKER_OPTIONS\<lparr>depthLimit := Some 0\<rparr>)
     = Inr shallowWalker \<and>
   enumerate_items 6 lenientFs shallowWalker
     = ([FolderItem ''/r/'' True, FileItem ''/r/'' True ''a'' ''txt'', FolderItem ''/r/b/'' True],
        Some Ended)"
proof -
  have accepted: "asAbsoluteFolder ''/r//'' = Inr (FolderItem ''/r//'' True)"
    by code_simp
  have root: "path_normalize ''/r//'' = ''/r/''"
    by code_simp
  have root': "path_normalize ''/r/'' = ''/r/''"
    by code_simp
  have doubled: "walkFolder lenientFs (FolderItem ''/r//'' True)
       (DEFAULT_FOLDER_WALKER_OPTIONS\<lparr>depthLimit := Some 0\<rparr>) = Inr doubledWalker"
    by (simp add: walkFolder_def newFolderWalker_def doesFolderExistSync_def lenientFs_def
        deepFs_def doubledWalker_def DEFAULT_FOLDER_WALKER_OPTIONS_def NORMAL_SEPARATOR_def
        Let_def root)
  have plain: "walkFolder lenientFs (FolderItem ''/r/'' True)
       (DEFAULT_FOLDER_WALKER_OPTIONS\<lparr>depthLimit := Some 0\<rparr>) = Inr shallowWalker"
    by (simp add: walkFolder_def newFolderWalker_def doesFolderExistSync_def lenientFs_def
        deepFs_def shallowWalker_def DEFAULT_FOLDER_WALKER_OPTIONS_def NORMAL_SEPARATOR_def
        Let_def root')
  have limit: "absoluteLengthLimit doubledWalker = Some 4"
    by (simp add: doubledWalker_def)
  have child: "int (length (split_js ''/r/b/'' sep)) = 4"
    by (simp add: sep_def)
  have visited: "enumerate_items 6 lenientFs doubledWalker
     = ([FolderItem ''/r//'' True, FileItem ''/r/'' True ''a'' ''txt'', FolderItem ''/r/b/'' True,
         FileItem ''/r/b/'' True ''c'' ''txt''],
        Some Ended)"
    by code_simp
  have leaves: "enumerate_items 6 lenientFs shallowWalker
     = ([FolderItem ''/r/'' True, FileItem ''/r/'' True ''a'' ''txt'', FolderItem ''/r/b/'' True],
        Some Ended)"
    by code_simp
  show ?thesis
    using accepted doubled limit child visited plain leaves by simp
qed

subsection \<open>A folder with one file and one empty folder\<close>

text \<open>
  Claim C3, as amended. For a root folder \<open>/s1/.../sk/\<close> that holds exactly the file
  \<^verbatim>\<open>a.txt\<close> and the empty folder \<^verbatim>\<open>b/\<close>, whatever the order \<open>readdir\<close> lists them in, the
  enumeration with the default options yields exactly three items and ends: the root folder
  first, then the file \<^verbatim>\<open>a.txt\<close>, then the folder \<^verbatim>\<open>b/\<close>.
\<close>

theorem root_first_then_file_then_folder:
  assumes segs: "\<forall>s \<in> set segs. plainFolderName s"
    and root: "folderPathname root = folderPathnameOf segs"
    and rd: "readdir fs (folderPathnameOf segs) = Inr ds"
    and ds: "ds = [\<lparr>name = ''b'', direntType = Directory\<rparr>, \<lparr>name = ''a.txt'', direntType = RegularFile\<rparr>]
       \<or> ds = [\<lparr>name = ''a.txt'', direntType = RegularFile\<rparr>, \<lparr>name = ''b'', direntType = Directory\<rparr>]"
    and empty: "readdir fs (folderPathnameOf segs @ ''b/'') = Inr []"
    and st_root: "stat fs (folderPathnameOf segs) = Inr st0" "statsType st0 = Directory"
    and st_a: "stat fs (folderPathnameOf segs @ ''a.txt'') = Inr st1" "statsType st1 = RegularFile"
    and st_b: "stat fs (folderPathnameOf segs @ ''b/'') = Inr st2" "statsType st2 = Directory"
  shows "\<exists>w. walkFolder fs root DEFAULT_FOLDER_WALKER_OPTIONS = Inr w \<and>
           enumerate_items (Suc (Suc (Suc (Suc n)))) fs w
             = ([FolderItem (folderPathnameOf segs) True,
                 FileItem (folderPathnameOf segs) True ''a'' ''txt'',
                 FolderItem (folderPathnameOf segs @ ''b/'') True],
                Some Ended)"
proof -
  let ?rootp = "folderPathnameOf segs"
  let ?opts = DEFAULT_FOLDER_WALKER_OPTIONS
  let ?a = "\<lparr>name = ''a.txt'', direntType = RegularFile\<rparr>"
  let ?b = "\<lparr>name = ''b'', direntType = Directory\<rparr>"
  let ?w0 = "\<lparr>absoluteResolvedPathnames = [?rootp], options = ?opts, absoluteLengthLimit = None\<rparr>"
  let ?w1 = "\<lparr>absoluteResolvedPathnames = [?rootp @ ''b/'', ?rootp @ ''a.txt''], options = ?opts,
              absoluteLengthLimit = None\<rparr>"
  let ?w2 = "\<lparr>absoluteResolvedPathnames = [?rootp @ ''b/''], options = ?opts,
              absoluteLengthLimit = None\<rparr>"
  let ?w3 = "\<lparr>absoluteResolvedPathnames = [], options = ?opts, absoluteLengthLimit = None\<rparr>"
  have plain: "\<forall>s \<in> set segs. plainName s" using segs by (simp add: plainFolderName_def)
  have nofilter: "itemFilter ?opts = None" by (simp add: DEFAULT_FOLDER_WALKER_OPTIONS_def)
  have pa: "plainName ''a.txt''" and pb: "plainName ''b''" and fb: "plainFolderName ''b''"
    by (simp_all add: plainName_def plainFolderName_def)
  have segs': "\<forall>s \<in> set (segs @ [''b'']). plainFolderName s" using segs fb by simp
  have w0: "walkFolder fs root ?opts = Inr ?w0"
    using root rd
    by (simp add: walkFolder_def newFolderWalker_def doesFolderExistSync_def Let_def
        DEFAULT_FOLDER_WALKER_OPTIONS_def)
  have pushed: "foldl (pushDirent ?rootp) [] (processDirents ?opts ds)
                  = [?rootp @ ''b/'', ?rootp @ ''a.txt'']"
    unfolding processDirents_b_a [OF ds] foldl_pushDirent
    using childPathname_plain [OF plain, of ?a] childPathname_plain [OF plain, of ?b] pa pb
    by (simp add: isPushed_def)
  have step0: "read fs ?w0 = (Pushed (FolderItem ?rootp True), ?w1)"
    using read_directory_expand [of ?w0 "[]" ?rootp fs st0 ds "FolderItem ?rootp True"]
      st_root rd nofilter asAbsoluteFolder_folderPathnameOf [OF segs]
    by (simp add: pushed)
  have step1: "read fs ?w1 = (Pushed (FileItem ?rootp True ''a'' ''txt''), ?w2)"
    using read_file [of ?w1 "[?rootp @ ''b/'']" "?rootp @ ''a.txt''" fs st1]
      st_a nofilter asAbsoluteFile_child [OF segs pa]
    by (simp add: pushOrDestroy_def parseFullFileName_a_txt)
  have step2: "read fs ?w2 = (Pushed (FolderItem (?rootp @ ''b/'') True), ?w3)"
    using read_directory_expand [of ?w2 "[]" "?rootp @ ''b/''" fs st2 "[]"
        "FolderItem (?rootp @ ''b/'') True"]
      st_b empty nofilter asAbsoluteFolder_folderPathnameOf [OF segs']
    by (simp add: folderPathnameOf_snoc processDirents_def DEFAULT_FOLDER_WALKER_OPTIONS_def
        sort_js_def)
  have step3: "enumerate_items (Suc n) fs ?w3 = ([], Some Ended)"
    by (rule enumerate_items_end) simp
  have "enumerate_items (Suc (Suc n)) fs ?w2 = ([FolderItem (?rootp @ ''b/'') True], Some Ended)"
    by (subst enumerate_items.simps) (simp add: step2 step3 del: enumerate_items.simps)
  then have "enumerate_items (Suc (Suc (Suc n))) fs ?w1
      = ([FileItem ?rootp True ''a'' ''txt'', FolderItem (?rootp @ ''b/'') True], Some Ended)"
    by (subst enumerate_items.simps) (simp add: step1 del: enumerate_items.simps)
  then have "enumerate_items (Suc (Suc (Suc (Suc n)))) fs ?w0
      = ([FolderItem ?rootp True, FileItem ?rootp True ''a'' ''txt'',
          FolderItem (?rootp @ ''b/'') True], Some Ended)"
    by (subst enumerate_items.simps) (simp add: step0 del: enumerate_items.simps)
  with w0 show ?thesis by blast
qed

theorem root_first_then_file_then_folder_witness:
  "walkFolder exampleFs (FolderItem ''/r/'' True) DEFAULT_FOLDER_WALKER_OPTIONS = Inr exampleWalker \<and>
   enumerate_items 4 exampleFs exampleWalker
     = ([FolderItem ''/r/'' True, FileItem ''/r/'' True ''a'' ''txt'', FolderItem ''/r/b/'' True],
        Some Ended)"
proof -
  let ?ds = "[\<lparr>name = ''b'', direntType = Directory\<rparr>, \<lparr>name = ''a.txt'', direntType = RegularFile\<rparr>]"
  have rp: "folderPathnameOf [''r''] = ''/r/''" by (simp add: folderPathnameOf_def)
  have segs: "\<forall>s \<in> set [''r'']. plainFolderName s"
    by (simp add: plainFolderName_def plainName_def)
  have root: "folderPathname (FolderItem ''/r/'' True) = folderPathnameOf [''r'']"
    by (simp add: rp)
  have rd: "readdir exampleFs (folderPathnameOf [''r'']) = Inr ?ds"
    by (simp add: rp exampleFs_def)
  have ds: "?ds = [\<lparr>name = ''b'', direntType = Directory\<rparr>, \<lparr>name = ''a.txt'', direntType = RegularFile\<rparr>]
       \<or> ?ds = [\<lparr>name = ''a.txt'', direntType = RegularFile\<rparr>, \<lparr>name = ''b'', direntType = Directory\<rparr>]"
    by simp
  have empty: "readdir exampleFs (folderPathnameOf [''r''] @ ''b/'') = Inr []"
    by (simp add: rp exampleFs_def)
  have st_root: "stat exampleFs (folderPathnameOf [''r'']) = Inr dirStats" "statsType dirStats = Directory"
    by (simp_all add: rp exampleFs_def dirStats_def)
  have st_a: "stat exampleFs (folderPathnameOf [''r''] @ ''a.txt'') = Inr fileStats"
    "statsType fileStats = RegularFile"
    by (simp_all add: rp exampleFs_def fileStats_def)
  have st_b: "stat exampleFs (folderPathnameOf [''r''] @ ''b/'') = Inr dirStats"
    by (simp add: rp exampleFs_def)
  have w: "walkFolder exampleFs (FolderItem ''/r/'' True) DEFAULT_FOLDER_WALKER_OPTIONS = Inr exampleWalker"
    by (simp add: walkFolder_def newFolderWalker_def doesFolderExistSync_def exampleFs_def
        exampleWalker_def DEFAULT_FOLDER_WALKER_OPTIONS_def Let_def)
  from root_first_then_file_then_folder
         [OF segs root rd ds empty st_root st_a st_b st_root(2), of 0] w
  have "enumerate_items (Suc (Suc (Suc (Suc 0)))) exampleFs exampleWalker
     = ([FolderItem ''/r/'' True, FileItem ''/r/'' True ''a'' ''txt'', FolderItem ''/r/b/'' True],
        Some Ended)"
    by (auto simp: rp simp del: enumerate_items.simps)
  with w show ?thesis by (simp add: eval_nat_numeral del: enumerate_items.simps)
qed

text \<open>
  The order stated in the claim (the file, the folder, then the root) is not the order of
  the items: the root comes first.
\<close>

theorem root_is_not_last_counterexample:
  "walkFolder exampleFs (FolderItem ''/r/'' True) DEFAULT_FOLDER_WALKER_OPTIONS = Inr exampleWalker \<and>
   fst (enumerate_items 4 exampleFs exampleWalker)
     = [FolderItem ''/r/'' True, FileItem ''/r/'' True ''a'' ''txt'', FolderItem ''/r/b/'' True] \<and>
   fst (enumerate_items 4 exampleFs exampleWalker)
     \<noteq> [FileItem ''/r/'' True ''a'' ''txt'', FolderItem ''/r/b/'' True, FolderItem ''/r/'' True]"
proof -
  have w: "walkFolder exampleFs (FolderItem ''/r/'' True) DEFAULT_FOLDER_WALKER_OPTIONS = Inr exampleWalker"
    by (simp add: walkFolder_def newFolderWalker_def doesFolderExistSync_def exampleFs_def
        exampleWalker_def DEFAULT_FOLDER_WALKER_OPTIONS_def Let_def)
  have e: "fst (enumerate_items 4 exampleFs exampleWalker)
     = [FolderItem ''/r/'' True, FileItem ''/r/'' True ''a'' ''txt'', FolderItem ''/r/b/'' True]"
    by code_simp
  show ?thesis unfolding e using w by simp
qed

subsection \<open>The default comparator\<close>

lemma compareStringsAscending_le:
  "a \<noteq> [] \<Longrightarrow> b \<noteq> [] \<Longrightarrow> (- 1 * compareStringsAscending a b \<le> 0) = (b \<le> a)"
  by (auto simp: compareStringsAscending_def)

lemma sortFilesFirstThenAlphabetically_le:
  assumes "name a \<noteq> []" and "name b \<noteq> []"
  shows "(sortFilesFirstThenAlphabetically a b \<le> 0) = sortsBefore a b"
  using compareStringsAscending_le [OF assms]
  by (auto simp: sortFilesFirstThenAlphabetically_def sortsBefore_def Let_def)

lemma sortsBefore_total: "sortsBefore a b \<or> sortsBefore b a"
  by (auto simp: sortsBefore_def)

lemma sortsBefore_trans: "sortsBefore a b \<Longrightarrow> sortsBefore b c \<Longrightarrow> sortsBefore a c"
  by (auto simp: sortsBefore_def)

lemma sorted_insort_default:
  assumes "name x \<noteq> []" and "\<forall>d \<in> set xs. name d \<noteq> []" and "sorted_wrt sortsBefore xs"
  shows "sorted_wrt sortsBefore (insort_cmp sortFilesFirstThenAlphabetically x xs)"
  using assms
proof (induction xs)
  case Nil
  then show ?case by simp
next
  case (Cons y ys)
  show ?case
  proof (cases "sortsBefore x y")
    case True
    then have "\<forall>z \<in> set ys. sortsBefore x z"
      using Cons.prems(3) sortsBefore_trans by auto
    with True Cons.prems show ?thesis
      by (simp add: sortFilesFirstThenAlphabetically_le)
  next
    case False
    then have "sortsBefore y x" using sortsBefore_total by blast
    moreover have "sorted_wrt sortsBefore (insort_cmp sortFilesFirstThenAlphabetically x ys)"
      using Cons by simp
    ultimately show ?thesis
      using False Cons.prems
      by (auto simp: sortFilesFirstThenAlphabetically_le set_insort_cmp)
  qed
qed

lemma sorted_sort_js_default:
  "\<forall>d \<in> set xs. name d \<noteq> [] \<Longrightarrow>
     sorted_wrt sortsBefore (sort_js sortFilesFirstThenAlphabetically xs)"
proof (induction xs)
  case Nil
  then show ?case by (simp add: sort_js_def)
next
  case (Cons x xs)
  then have "sorted_wrt sortsBefore (sort_js sortFilesFirstThenAlphabetically xs)" by simp
  moreover have "\<forall>d \<in> set (sort_js sortFilesFirstThenAlphabetically xs). name d \<noteq> []"
    using Cons.prems by (simp add: set_sort_js)
  ultimately show ?case
    using Cons.prems sorted_insort_default [of x "sort_js sortFilesFirstThenAlphabetically xs"]
    by (simp add: sort_js_def)
qed

lemma distinct_map_insort_cmp:
  "distinct (map f (insort_cmp cmp x xs)) = (f x \<notin> f ` set xs \<and> distinct (map f xs))"
  by (induction xs) (auto simp: set_insort_cmp)

lemma distinct_map_sort_js: "distinct (map f (sort_js cmp xs)) = distinct (map f xs)"
  by (induction xs) (auto simp: sort_js_def distinct_map_insort_cmp set_sort_js [unfolded sort_js_def])

lemma distinct_map_filter_zip:
  "distinct (map g xs) \<Longrightarrow> distinct (map g (map fst (filter Q (zip xs ys))))"
proof (induction xs arbitrary: ys)
  case Nil
  then show ?case by simp
next
  case (Cons x xs)
  show ?case
  proof (cases ys)
    case Nil
    then show ?thesis by simp
  next
    case (Cons y ys')
    have "g x \<notin> g ` fst ` set (filter Q (zip xs ys'))"
      using Cons.prems by (auto dest!: set_zip_leftD)
    with Cons.IH [of ys'] Cons.prems Cons show ?thesis by (auto simp: image_image)
  qed
qed

lemma distinct_map_filter_js: "distinct (map g xs) \<Longrightarrow> distinct (map g (filter_js f xs))"
  unfolding filter_js_def by (rule distinct_map_filter_zip)

lemma sorted_wrt_distinct_keys:
  "distinct (map f xs) \<Longrightarrow> sorted_wrt P xs \<Longrightarrow> sorted_wrt (\<lambda>x y. P x y \<and> f x \<noteq> f y) xs"
  by (induction xs) auto

lemma files_then_directories:
  assumes "sorted_wrt (\<lambda>a b. sortsBefore b a \<and> name a \<noteq> name b) vs"
    and "\<forall>d \<in> set vs. isPushed d"
  shows "vs = filter (\<lambda>d. direntType d = RegularFile) vs @ filter (\<lambda>d. direntType d = Directory) vs"
  using assms
proof (induction vs)
  case Nil
  then show ?case by simp
next
  case (Cons v vs)
  then have IH: "vs = filter (\<lambda>d. direntType d = RegularFile) vs
                       @ filter (\<lambda>d. direntType d = Directory) vs"
    by simp
  show ?case
  proof (cases "direntType v = RegularFile")
    case True
    with IH show ?thesis by simp
  next
    case False
    with Cons.prems(2) have dir: "direntType v = Directory" by (simp add: isPushed_def)
    have "\<forall>d \<in> set vs. direntType d = Directory"
      using Cons.prems(1) dir by (auto simp: sortsBefore_def)
    then have "filter (\<lambda>d. direntType d = RegularFile) vs = []"
      and "filter (\<lambda>d. direntType d = Directory) vs = vs"
      by (auto simp: filter_empty_conv filter_id_conv)
    with dir show ?thesis by simp
  qed
qed

lemma ascending_within_group:
  assumes "sorted_wrt (\<lambda>a b. sortsBefore b a \<and> name a \<noteq> name b) vs"
  shows "sorted_wrt (<) (map name (filter (\<lambda>d. direntType d = t) vs))"
proof -
  have "sorted_wrt (\<lambda>a b. sortsBefore b a \<and> name a \<noteq> name b) (filter (\<lambda>d. direntType d = t) vs)"
    using assms by (rule sorted_wrt_filter)
  then have "sorted_wrt (\<lambda>a b. name a < name b) (filter (\<lambda>d. direntType d = t) vs)"
    by (rule sorted_wrt_mono_rel [rotated]) (auto simp: sortsBefore_def)
  then show ?thesis by (simp add: sorted_wrt_map)
qed

lemma default_visit_order:
  assumes cmp: "arraySortFunction opts = Some sortFilesFirstThenAlphabetically"
    and names: "distinct (map name ds)" "\<forall>d \<in> set ds. name d \<noteq> []"
  shows "\<exists>files dirs.
           rev (filter isPushed (processDirents opts ds)) = files @ dirs \<and>
           (\<forall>f \<in> set files. direntType f = RegularFile) \<and>
           (\<forall>d \<in> set dirs. direntType d = Directory) \<and>
           sorted_wrt (<) (map name files) \<and>
           sorted_wrt (<) (map name dirs) \<and>
           set (files @ dirs)
             = {d \<in> set (case arrayFilterFunction opts of
                            None \<Rightarrow> ds | Some f \<Rightarrow> filter_js f ds). isPushed d}"
proof -
  let ?kept = "case arrayFilterFunction opts of None \<Rightarrow> ds | Some f \<Rightarrow> filter_js f ds"
  let ?sorted = "sort_js sortFilesFirstThenAlphabetically ?kept"
  let ?vs = "rev (filter isPushed ?sorted)"
  let ?files = "filter (\<lambda>d. direntType d = RegularFile) ?vs"
  let ?dirs = "filter (\<lambda>d. direntType d = Directory) ?vs"
  have processed: "processDirents opts ds = ?sorted"
    using cmp by (simp add: processDirents_def Let_def)
  have kept_sub: "set ?kept \<subseteq> set ds"
    using set_filter_js [of _ ds] by (auto split: option.splits)
  have kept_distinct: "distinct (map name ?kept)"
    using names(1) by (auto simp: distinct_map_filter_js split: option.splits)
  have kept_names: "\<forall>d \<in> set ?kept. name d \<noteq> []"
    using names(2) kept_sub by blast
  have "sorted_wrt sortsBefore ?sorted"
    by (rule sorted_sort_js_default [OF kept_names])
  moreover have "distinct (map name ?sorted)"
    using kept_distinct by (simp add: distinct_map_sort_js)
  ultimately have "sorted_wrt (\<lambda>a b. sortsBefore a b \<and> name a \<noteq> name b) ?sorted"
    by (simp add: sorted_wrt_distinct_keys)
  then have "sorted_wrt (\<lambda>a b. sortsBefore a b \<and> name a \<noteq> name b) (filter isPushed ?sorted)"
    by (rule sorted_wrt_filter)
  then have vs: "sorted_wrt (\<lambda>a b. sortsBefore b a \<and> name a \<noteq> name b) ?vs"
    by (simp add: sorted_wrt_rev) (rule sorted_wrt_mono_rel [rotated], assumption, auto)
  have pushed: "\<forall>d \<in> set ?vs. isPushed d" by simp
  have split: "?vs = ?files @ ?dirs"
    by (rule files_then_directories [OF vs pushed])
  have members: "set ?vs = {d \<in> set ?kept. isPushed d}"
    by (auto simp: set_sort_js)
  have "rev (filter isPushed (processDirents opts ds)) = ?files @ ?dirs"
    using split by (simp add: processed)
  moreover have "set (?files @ ?dirs) = {d \<in> set ?kept. isPushed d}"
    using members split by simp
  moreover have "sorted_wrt (<) (map name ?files)" "sorted_wrt (<) (map name ?dirs)"
    by (rule ascending_within_group [OF vs])+
  moreover have "\<forall>f \<in> set ?files. direntType f = RegularFile"
    "\<forall>d \<in> set ?dirs. direntType d = Directory"
    by simp_all
  ultimately show ?thesis by blast
qed

lemma read_pushes_processed:
  assumes "folderWalker_NextItem fs (absoluteResolvedPathnames w) (itemFilter (options w))
             = (Inr (Some (p, st)), stack)"
    and "statsType st = Directory"
    and "absoluteLengthLimit w = None
           \<or> (\<exists>limit. absoluteLengthLimit w = Some limit \<and> int (length (split_js p sep)) \<le> limit)"
    and "readdir fs p = Inr ds"
  shows "absoluteResolvedPathnames (snd (read fs w))
           = stack @ rev (map (childPathname p) (rev (filter isPushed (processDirents (options w) ds))))"
  using assms by (auto simp: read_def foldl_pushDirent rev_map split: sum.splits)

subsection \<open>The enumeration of a tree\<close>

lemma insort_cmp_map:
  "insort_cmp cmp (f x) (map f xs) = map f (insort_cmp (\<lambda>a b. cmp (f a) (f b)) x xs)"
  by (induction xs) auto

lemma sort_js_map:
  "sort_js cmp (map f xs) = map f (sort_js (\<lambda>a b. cmp (f a) (f b)) xs)"
  by (induction xs) (simp_all add: sort_js_def insort_cmp_map)

lemma butlast_folderPathnameOf_snoc:
  "butlast (folderPathnameOf (segs @ [nm])) = folderPathnameOf segs @ nm"
  by (simp add: folderPathnameOf_snoc butlast_append)

lemma childPathname_pathOf:
  assumes "\<forall>s \<in> set segs. plainName s" and "plainName (fst c)" and "kind (snd c) \<noteq> OtherEntry"
  shows "childPathname (folderPathnameOf segs) (entry c) = pathOf (segs @ [fst c]) (snd c)"
proof (cases "snd c")
  case File
  then show ?thesis
    using childPathname_plain [OF assms(1), of "entry c"] assms(2)
    by (simp add: entry_def pathOf_def butlast_folderPathnameOf_snoc)
next
  case Other
  with assms(3) show ?thesis by simp
next
  case (Folder children)
  then show ?thesis
    using childPathname_plain [OF assms(1), of "entry c"] assms(2)
    by (simp add: entry_def pathOf_def folderPathnameOf_snoc)
qed

lemma enumerate_items_Pushed:
  "read fs w = (Pushed item, w') \<Longrightarrow>
     enumerate_items (Suc n) fs w = (item # fst (enumerate_items n fs w'), snd (enumerate_items n fs w'))"
  by simp

lemma walkerOn_simps [simp]:
  "absoluteResolvedPathnames (walkerOn stack) = stack"
  "itemFilter (options (walkerOn stack)) = None"
  "absoluteLengthLimit (walkerOn stack) = None"
  "options (walkerOn stack) = DEFAULT_FOLDER_WALKER_OPTIONS"
  "(walkerOn stack)\<lparr>absoluteResolvedPathnames := stack'\<rparr> = walkerOn stack'"
  "itemFilter DEFAULT_FOLDER_WALKER_OPTIONS = None"
  by (simp_all add: walkerOn_def DEFAULT_FOLDER_WALKER_OPTIONS_def)

lemma processDirents_default:
  "processDirents DEFAULT_FOLDER_WALKER_OPTIONS ds = sort_js sortFilesFirstThenAlphabetically ds"
  by (simp add: processDirents_def DEFAULT_FOLDER_WALKER_OPTIONS_def)

lemma enumerate_children:
  assumes sub: "\<And>c S n. c \<in> set L \<Longrightarrow>
      enumerate_items (length (its c) + n) fs (walkerOn (S @ [pth c]))
        = (its c @ fst (enumerate_items n fs (walkerOn S)), snd (enumerate_items n fs (walkerOn S)))"
  shows "enumerate_items (length (concat (map its (rev L))) + n) fs (walkerOn (S @ map pth L))
           = (concat (map its (rev L)) @ fst (enumerate_items n fs (walkerOn S)),
              snd (enumerate_items n fs (walkerOn S)))"
  using sub
proof (induction L arbitrary: n rule: rev_induct)
  case Nil
  then show ?case by simp
next
  case (snoc c L)
  let ?rest = "concat (map its (rev L))"
  have first: "enumerate_items (length (its c) + (length ?rest + n)) fs
                 (walkerOn ((S @ map pth L) @ [pth c]))
        = (its c @ fst (enumerate_items (length ?rest + n) fs (walkerOn (S @ map pth L))),
           snd (enumerate_items (length ?rest + n) fs (walkerOn (S @ map pth L))))"
    by (rule snoc.prems) simp
  have rest: "enumerate_items (length ?rest + n) fs (walkerOn (S @ map pth L))
           = (?rest @ fst (enumerate_items n fs (walkerOn S)),
              snd (enumerate_items n fs (walkerOn S)))"
    by (rule snoc.IH) (simp add: snoc.prems)
  show ?case
    using first by (simp add: rest add.assoc del: enumerate_items.simps)
qed

lemma enumerate_file:
  assumes parent: "\<forall>s \<in> set segs. plainFolderName s" and nm: "plainName nm"
    and st: "mirrors fs (segs @ [nm]) File"
  shows "enumerate_items (length (items (segs @ [nm]) File) + n) fs
           (walkerOn (S @ [pathOf (segs @ [nm]) File]))
         = (items (segs @ [nm]) File @ fst (enumerate_items n fs (walkerOn S)),
            snd (enumerate_items n fs (walkerOn S)))"
proof -
  let ?p = "folderPathnameOf segs @ nm"
  from st obtain fstats where fstats: "stat fs ?p = Inr fstats" "statsType fstats = RegularFile"
    by (auto simp: butlast_folderPathnameOf_snoc)
  have "read fs (walkerOn (S @ [?p])) = (pushOrDestroy (asAbsoluteFile ?p), walkerOn S)"
    using read_file [of "walkerOn (S @ [?p])" S ?p fs fstats] fstats by simp
  then have "read fs (walkerOn (S @ [?p]))
      = (Pushed (FileItem (folderPathnameOf segs) True
                   (fst (parseFullFileName nm)) (snd (parseFullFileName nm))), walkerOn S)"
    by (simp add: asAbsoluteFile_child [OF parent nm] pushOrDestroy_def)
  from enumerate_items_Pushed [OF this, of n] show ?thesis
    by (simp add: pathOf_def butlast_folderPathnameOf_snoc del: enumerate_items.simps)
qed

lemma items_Folder:
  "items segs (Folder children) =
     FolderItem (folderPathnameOf segs) True
       # concat (map (\<lambda>c. items (segs @ [fst c]) (snd c))
           (rev (filter (\<lambda>c. isPushed (entry c))
              (sort_js (\<lambda>a b. sortFilesFirstThenAlphabetically (entry a) (entry b)) children))))"
proof -
  let ?f = "\<lambda>c. (c, items (segs @ [fst c]) (snd c))"
  have "sort_js (\<lambda>a b. sortFilesFirstThenAlphabetically (entry (fst a)) (entry (fst b)))
          (map ?f children)
        = map ?f (sort_js (\<lambda>a b. sortFilesFirstThenAlphabetically (entry a) (entry b)) children)"
    by (simp add: sort_js_map)
  then show ?thesis
    by (simp add: filter_map comp_def rev_map)
qed

lemma enumerate_subtree:
  assumes "\<forall>s \<in> set segs. plainFolderName s"
    and "mirrors fs segs (Folder children)"
  shows "enumerate_items (length (items segs (Folder children)) + n) fs
           (walkerOn (S @ [folderPathnameOf segs]))
         = (items segs (Folder children) @ fst (enumerate_items n fs (walkerOn S)),
            snd (enumerate_items n fs (walkerOn S)))"
  using assms
proof (induction "Folder children" arbitrary: children segs S n rule: tree.induct)
  case (Folder children)
  let ?p = "folderPathnameOf segs"
  let ?cmp = "\<lambda>a b. sortFilesFirstThenAlphabetically (entry a) (entry b)"
  let ?L = "filter (\<lambda>c. isPushed (entry c)) (sort_js ?cmp children)"
  let ?its = "\<lambda>c. items (segs @ [fst c]) (snd c)"
  let ?pth = "\<lambda>c. pathOf (segs @ [fst c]) (snd c)"
  have plain: "\<forall>s \<in> set segs. plainName s"
    using Folder.prems(1) by (simp add: plainFolderName_def)
  from Folder.prems(2) obtain st where st: "stat fs ?p = Inr st" "statsType st = Directory"
    and rd: "readdir fs ?p = Inr (map entry children)"
    and kids: "\<forall>c \<in> set children. plainName (fst c) \<and>
         (kind (snd c) = Directory \<longrightarrow> plainFolderName (fst c)) \<and>
         mirrors fs (segs @ [fst c]) (snd c)"
    by auto
  have Lsub: "set ?L \<subseteq> set children" by (auto simp: set_sort_js)
  have pushed: "foldl (pushDirent ?p) S (processDirents DEFAULT_FOLDER_WALKER_OPTIONS (map entry children))
                  = S @ map ?pth ?L"
  proof -
    have "childPathname ?p (entry c) = ?pth c" if "c \<in> set ?L" for c
    proof -
      from that Lsub kids have "plainName (fst c)" by blast
      moreover from that have "kind (snd c) \<noteq> OtherEntry"
        by (auto simp: isPushed_def entry_def)
      ultimately show ?thesis by (rule childPathname_pathOf [OF plain])
    qed
    then have "map (childPathname ?p) (map entry ?L) = map ?pth ?L"
      by simp
    then show ?thesis
      by (simp add: processDirents_default foldl_pushDirent sort_js_map filter_map comp_def)
  qed
  have step: "read fs (walkerOn (S @ [?p])) = (Pushed (FolderItem ?p True), walkerOn (S @ map ?pth ?L))"
    using read_directory_expand [of "walkerOn (S @ [?p])" S ?p fs st "map entry children"
        "FolderItem ?p True"]
      st rd asAbsoluteFolder_folderPathnameOf [OF Folder.prems(1)]
    by (simp add: pushed)
  have sub: "enumerate_items (length (?its c) + m) fs (walkerOn (T @ [?pth c]))
        = (?its c @ fst (enumerate_items m fs (walkerOn T)), snd (enumerate_items m fs (walkerOn T)))"
    if "c \<in> set ?L" for c T m
  proof -
    from that Lsub have c: "c \<in> set children" by blast
    from that have pc: "isPushed (entry c)" by simp
    from kids c have nm: "plainName (fst c)"
      and fnm: "kind (snd c) = Directory \<longrightarrow> plainFolderName (fst c)"
      and m: "mirrors fs (segs @ [fst c]) (snd c)"
      by auto
    show ?thesis
    proof (cases "snd c")
      case File
      with enumerate_file [OF Folder.prems(1) nm, where fs = fs and n = m and S = T] m
      show ?thesis by simp
    next
      case Other
      with pc show ?thesis by (simp add: isPushed_def entry_def)
    next
      case (Folder cs)
      have in_c: "Folder cs \<in> Basic_BNFs.snds c"
        using Folder by (cases c) simp
      have segs': "\<forall>s \<in> set (segs @ [fst c]). plainFolderName s"
        using fnm Folder \<open>\<forall>s \<in> set segs. plainFolderName s\<close> by simp
      from Folder.hyps [OF c in_c segs', where S = T and n = m] m Folder
      show ?thesis by (simp add: pathOf_def)
    qed
  qed
  have rest: "enumerate_items (length (concat (map ?its (rev ?L))) + n) fs (walkerOn (S @ map ?pth ?L))
           = (concat (map ?its (rev ?L)) @ fst (enumerate_items n fs (walkerOn S)),
              snd (enumerate_items n fs (walkerOn S)))"
    by (rule enumerate_children) (rule sub)
  show ?case
    using enumerate_items_Pushed [OF step, of "length (concat (map ?its (rev ?L))) + n"]
    by (simp add: items_Folder rest del: enumerate_items.simps items.simps)
qed

lemma enumerate_tree:
  assumes segs: "\<forall>s \<in> set segs. plainFolderName s"
    and root: "folderPathname root = folderPathnameOf segs"
    and tree: "mirrors fs segs (Folder children)"
  shows "walkFolder fs root DEFAULT_FOLDER_WALKER_OPTIONS = Inr (walkerOn [folderPathnameOf segs])"
    and "enumerate_items (Suc (length (items segs (Folder children)) + n)) fs
           (walkerOn [folderPathnameOf segs])
         = (items segs (Folder children), Some Ended)"
proof -
  from tree have rd: "readdir fs (folderPathnameOf segs) = Inr (map entry children)" by simp
  show "walkFolder fs root DEFAULT_FOLDER_WALKER_OPTIONS = Inr (walkerOn [folderPathnameOf segs])"
    using root rd
    by (simp add: walkFolder_def newFolderWalker_def doesFolderExistSync_def Let_def walkerOn_def
        DEFAULT_FOLDER_WALKER_OPTIONS_def)
  have "enumerate_items (length (items segs (Folder children)) + Suc n) fs
           (walkerOn ([] @ [folderPathnameOf segs]))
         = (items segs (Folder children) @ fst (enumerate_items (Suc n) fs (walkerOn [])),
            snd (enumerate_items (Suc n) fs (walkerOn [])))"
    by (rule enumerate_subtree [OF segs tree])
  moreover have "enumerate_items (Suc n) fs (walkerOn []) = ([], Some Ended)"
    by (rule enumerate_items_end) simp
  ultimately show "enumerate_items (Suc (length (items segs (Folder children)) + n)) fs
           (walkerOn [folderPathnameOf segs])
         = (items segs (Folder children), Some Ended)"
    by (simp del: enumerate_items.simps items.simps)
qed

lemma children_visit_order:
  assumes "distinct (map fst children)" and "\<forall>c \<in> set children. fst c \<noteq> []"
  shows "\<exists>files dirs.
           rev (filter (\<lambda>c. isPushed (entry c))
                  (sort_js (\<lambda>a b. sortFilesFirstThenAlphabetically (entry a) (entry b)) children))
             = files @ dirs \<and>
           (\<forall>f \<in> set files. snd f = File) \<and>
           (\<forall>d \<in> set dirs. \<exists>cs. snd d = Folder cs) \<and>
           sorted_wrt (<) (map fst files) \<and>
           sorted_wrt (<) (map fst dirs) \<and>
           set (files @ dirs) = {c \<in> set children. snd c \<noteq> Other}"
proof -
  let ?V = "rev (filter (\<lambda>c. isPushed (entry c))
                  (sort_js (\<lambda>a b. sortFilesFirstThenAlphabetically (entry a) (entry b)) children))"
  have names: "map name (map entry children) = map fst children"
    by (simp add: entry_def comp_def)
  have name_entry: "name (entry c) = fst c" for c
    by (simp add: entry_def)
  have "distinct (map name (map entry children))" "\<forall>d \<in> set (map entry children). name d \<noteq> []"
    using assms by (simp_all add: comp_def name_entry)
  from default_visit_order [of DEFAULT_FOLDER_WALKER_OPTIONS, OF _ this]
  obtain filesD dirsD where D:
    "rev (filter isPushed (processDirents DEFAULT_FOLDER_WALKER_OPTIONS (map entry children)))
       = filesD @ dirsD"
    "\<forall>f \<in> set filesD. direntType f = RegularFile"
    "\<forall>d \<in> set dirsD. direntType d = Directory"
    "sorted_wrt (<) (map name filesD)" "sorted_wrt (<) (map name dirsD)"
    by (auto simp: DEFAULT_FOLDER_WALKER_OPTIONS_def)
  have V: "map entry ?V = filesD @ dirsD"
    using D(1) by (simp add: processDirents_default sort_js_map filter_map comp_def rev_map)
  let ?files = "take (length filesD) ?V"
  let ?dirs = "drop (length filesD) ?V"
  have f: "map entry ?files = filesD" and d: "map entry ?dirs = dirsD"
    using V by (simp_all add: take_map [symmetric] drop_map [symmetric])
  have kinds: "kind t = RegularFile \<longleftrightarrow> t = File" "kind t = Directory \<longleftrightarrow> (\<exists>cs. t = Folder cs)"
    "kind t \<noteq> OtherEntry \<longleftrightarrow> t \<noteq> Other" for t
    by (cases t; simp)+
  have split: "?V = ?files @ ?dirs" by simp
  have fset: "entry ` set ?files = set filesD" and dset: "entry ` set ?dirs = set dirsD"
    using f d by (metis set_map)+
  have files: "\<forall>f \<in> set ?files. snd f = File"
  proof
    fix c assume "c \<in> set ?files"
    then have "entry c \<in> set filesD" using fset by blast
    with D(2) have "direntType (entry c) = RegularFile" by blast
    then have "kind (snd c) = RegularFile" by (simp add: entry_def)
    then show "snd c = File" by (simp add: kinds)
  qed
  have dirs: "\<forall>d \<in> set ?dirs. \<exists>cs. snd d = Folder cs"
  proof
    fix c assume "c \<in> set ?dirs"
    then have "entry c \<in> set dirsD" using dset by blast
    with D(3) have "direntType (entry c) = Directory" by blast
    then have "kind (snd c) = Directory" by (simp add: entry_def)
    then show "\<exists>cs. snd c = Folder cs" by (simp add: kinds)
  qed
  have "map fst ?files = map name (map entry ?files)" "map fst ?dirs = map name (map entry ?dirs)"
    by (simp_all only: map_map comp_def name_entry)
  with D(4,5) f d have sorted: "sorted_wrt (<) (map fst ?files)" "sorted_wrt (<) (map fst ?dirs)"
    by simp_all
  have pushed: "isPushed (entry c) \<longleftrightarrow> snd c \<noteq> Other" for c
    by (cases "snd c") (simp_all add: isPushed_def entry_def)
  have "set ?V = {c \<in> set children. snd c \<noteq> Other}"
    by (simp add: set_sort_js pushed)
  then have members: "set (?files @ ?dirs) = {c \<in> set children. snd c \<noteq> Other}"
    using split by (simp only:)
  from split files dirs sorted members show ?thesis
    by (intro exI [of _ ?files] exI [of _ ?dirs] conjI)
qed

text \<open>
  Claim C2. Take a folder whose entries have distinct, non-empty names, read by a walker
  with the default comparator. When \<^verbatim>\<open>_read\<close> expands the folder, the pathnames it leaves on
  top of the stack are those of the files and subdirectories among the entries kept by the
  array filter, placed so that popping from the end of the stack takes all the files before
  all the subdirectories, and within each group in strictly ascending order of the names:
  the stack holds the reverse of that order. And when the file system holds a tree at the
  root, the enumeration with the default options emits the root folder, then its files in
  strictly ascending order of their names, then its subdirectories in strictly ascending
  order of their names, each followed by the listing of what it holds, and ends.
\<close>

theorem default_comparator_visit_order:
  "(folderWalker_NextItem fs (absoluteResolvedPathnames w) (itemFilter (options w))
        = (Inr (Some (p, st)), stack) \<and>
      statsType st = Directory \<and>
      (absoluteLengthLimit w = None
         \<or> (\<exists>limit. absoluteLengthLimit w = Some limit \<and> int (length (split_js p sep)) \<le> limit)) \<and>
      readdir fs p = Inr ds \<and>
      arraySortFunction (options w) = Some sortFilesFirstThenAlphabetically \<and>
      distinct (map name ds) \<and> (\<forall>d \<in> set ds. name d \<noteq> []) \<longrightarrow>
      (\<exists>files dirs.
         absoluteResolvedPathnames (snd (read fs w))
           = stack @ rev (map (childPathname p) (files @ dirs)) \<and>
         (\<forall>f \<in> set files. direntType f = RegularFile) \<and>
         (\<forall>d \<in> set dirs. direntType d = Directory) \<and>
         sorted_wrt (<) (map name files) \<and>
         sorted_wrt (<) (map name dirs) \<and>
         set (files @ dirs)
           = {d \<in> set (case arrayFilterFunction (options w) of
                          None \<Rightarrow> ds | Some f \<Rightarrow> filter_js f ds). isPushed d})) \<and>
   ((\<forall>s \<in> set segs. plainFolderName s) \<and>
      folderPathname root = folderPathnameOf segs \<and>
      mirrors fs' segs (Folder children) \<longrightarrow>
      (\<exists>files dirs w'.
         walkFolder fs' root DEFAULT_FOLDER_WALKER_OPTIONS = Inr w' \<and>
         enumerate_items (Suc (length (items segs (Folder children)) + k)) fs' w'
           = (FolderItem (folderPathnameOf segs) True
                # concat (map (\<lambda>c. items (segs @ [fst c]) (snd c)) (files @ dirs)),
              Some Ended) \<and>
         (\<forall>f \<in> set files. snd f = File) \<and>
         (\<forall>d \<in> set dirs. \<exists>cs. snd d = Folder cs) \<and>
         sorted_wrt (<) (map fst files) \<and>
         sorted_wrt (<) (map fst dirs) \<and>
         set (files @ dirs) = {c \<in> set children. snd c \<noteq> Other}))"
proof (intro conjI impI)
  assume a: "folderWalker_NextItem fs (absoluteResolvedPathnames w) (itemFilter (options w))
        = (Inr (Some (p, st)), stack) \<and>
      statsType st = Directory \<and>
      (absoluteLengthLimit w = None
         \<or> (\<exists>limit. absoluteLengthLimit w = Some limit \<and> int (length (split_js p sep)) \<le> limit)) \<and>
      readdir fs p = Inr ds \<and>
      arraySortFunction (options w) = Some sortFilesFirstThenAlphabetically \<and>
      distinct (map name ds) \<and> (\<forall>d \<in> set ds. name d \<noteq> [])"
  then have stack: "absoluteResolvedPathnames (snd (read fs w))
           = stack @ rev (map (childPathname p) (rev (filter isPushed (processDirents (options w) ds))))"
    using read_pushes_processed [of fs w p st stack ds] by blast
  from a default_visit_order [of "options w" ds]
  obtain files dirs where
    "rev (filter isPushed (processDirents (options w) ds)) = files @ dirs"
    "\<forall>f \<in> set files. direntType f = RegularFile"
    "\<forall>d \<in> set dirs. direntType d = Directory"
    "sorted_wrt (<) (map name files)" "sorted_wrt (<) (map name dirs)"
    "set (files @ dirs)
       = {d \<in> set (case arrayFilterFunction (options w) of
                      None \<Rightarrow> ds | Some f \<Rightarrow> filter_js f ds). isPushed d}"
    by blast
  with stack show "\<exists>files dirs.
         absoluteResolvedPathnames (snd (read fs w))
           = stack @ rev (map (childPathname p) (files @ dirs)) \<and>
         (\<forall>f \<in> set files. direntType f = RegularFile) \<and>
         (\<forall>d \<in> set dirs. direntType d = Directory) \<and>
         sorted_wrt (<) (map name files) \<and>
         sorted_wrt (<) (map name dirs) \<and>
         set (files @ dirs)
           = {d \<in> set (case arrayFilterFunction (options w) of
                          None \<Rightarrow> ds | Some f \<Rightarrow> filter_js f ds). isPushed d}"
    by (intro exI [of _ files] exI [of _ dirs]) simp
next
  assume b: "(\<forall>s \<in> set segs. plainFolderName s) \<and>
      folderPathname root = folderPathnameOf segs \<and>
      mirrors fs' segs (Folder children)"
  then have names: "distinct (map fst children)" "\<forall>c \<in> set children. fst c \<noteq> []"
    by (auto simp: plainName_def)
  from children_visit_order [OF names]
  obtain files dirs where fd:
    "rev (filter (\<lambda>c. isPushed (entry c))
            (sort_js (\<lambda>a b. sortFilesFirstThenAlphabetically (entry a) (entry b)) children))
       = files @ dirs"
    "\<forall>f \<in> set files. snd f = File"
    "\<forall>d \<in> set dirs. \<exists>cs. snd d = Folder cs"
    "sorted_wrt (<) (map fst files)" "sorted_wrt (<) (map fst dirs)"
    "set (files @ dirs) = {c \<in> set children. snd c \<noteq> Other}"
    by blast
  have listing: "items segs (Folder children)
      = FolderItem (folderPathnameOf segs) True
          # concat (map (\<lambda>c. items (segs @ [fst c]) (snd c)) (files @ dirs))"
    unfolding items_Folder fd(1) by (rule refl)
  from b have run: "walkFolder fs' root DEFAULT_FOLDER_WALKER_OPTIONS
                      = Inr (walkerOn [folderPathnameOf segs])"
    "enumerate_items (Suc (length (items segs (Folder children)) + k)) fs'
       (walkerOn [folderPathnameOf segs])
     = (items segs (Folder children), Some Ended)"
    using enumerate_tree(1) [where segs = segs and root = root and fs = fs' and children = children]
      enumerate_tree(2) [where segs = segs and root = root and fs = fs' and children = children
        and n = k]
    by blast+
  have "enumerate_items (Suc (length (items segs (Folder children)) + k)) fs'
       (walkerOn [folderPathnameOf segs])
     = (FolderItem (folderPathnameOf segs) True
          # concat (map (\<lambda>c. items (segs @ [fst c]) (snd c)) (files @ dirs)), Some Ended)"
    using run(2) listing by (simp only:)
  with run(1) fd show "\<exists>files dirs w'.
         walkFolder fs' root DEFAULT_FOLDER_WALKER_OPTIONS = Inr w' \<and>
         enumerate_items (Suc (length (items segs (Folder children)) + k)) fs' w'
           = (FolderItem (folderPathnameOf segs) True
                # concat (map (\<lambda>c. items (segs @ [fst c]) (snd c)) (files @ dirs)),
              Some Ended) \<and>
         (\<forall>f \<in> set files. snd f = File) \<and>
         (\<forall>d \<in> set dirs. \<exists>cs. snd d = Folder cs) \<and>
         sorted_wrt (<) (map fst files) \<and>
         sorted_wrt (<) (map fst dirs) \<and>
         set (files @ dirs) = {c \<in> set children. snd c \<noteq> Other}"
    by (intro exI [of _ files] exI [of _ dirs] exI [of _ "walkerOn [folderPathnameOf segs]"] conjI)
qed

lemma mirrors_mixed: "mirrors mixedFs [''m''] (Folder mixedChildren)"
  by (simp add: mixedChildren_def mixedFs_def folderPathnameOf_def entry_def plainName_def
      plainFolderName_def dirStats_def fileStats_def)

theorem default_comparator_visit_order_witness:
  "mirrors mixedFs [''m''] (Folder mixedChildren) \<and>
   walkFolder mixedFs (FolderItem ''/m/'' True) DEFAULT_FOLDER_WALKER_OPTIONS = Inr mixedWalker \<and>
   absoluteResolvedPathnames (snd (read mixedFs mixedWalker))
     = rev [''/m/a.txt'', ''/m/b.txt'', ''/m/c/'', ''/m/d/''] \<and>
   enumerate_items 7 mixedFs mixedWalker
     = ([FolderItem ''/m/'' True,
         FileItem ''/m/'' True ''a'' ''txt'', FileItem ''/m/'' True ''b'' ''txt'',
         FolderItem ''/m/c/'' True, FileItem ''/m/c/'' True ''x'' ''txt'',
         FolderItem ''/m/d/'' True],
        Some Ended)"
proof -
  have rp: "folderPathnameOf [''m''] = ''/m/''" by (simp add: folderPathnameOf_def)
  have h: "(\<forall>s \<in> set [''m'']. plainFolderName s) \<and>
      folderPathname (FolderItem ''/m/'' True) = folderPathnameOf [''m''] \<and>
      mirrors mixedFs [''m''] (Folder mixedChildren)"
    using mirrors_mixed by (simp add: rp plainFolderName_def plainName_def)
  have w: "walkFolder mixedFs (FolderItem ''/m/'' True) DEFAULT_FOLDER_WALKER_OPTIONS = Inr mixedWalker"
    by (simp add: walkFolder_def newFolderWalker_def doesFolderExistSync_def mixedFs_def
        mixedWalker_def DEFAULT_FOLDER_WALKER_OPTIONS_def Let_def)
  have len: "Suc (length (items [''m''] (Folder mixedChildren)) + 0) = 7"
    by code_simp
  from default_comparator_visit_order [where segs = "[''m'']" and root = "FolderItem ''/m/'' True"
      and fs' = mixedFs and children = mixedChildren and k = 0] h
  obtain files dirs w' where
    "walkFolder mixedFs (FolderItem ''/m/'' True) DEFAULT_FOLDER_WALKER_OPTIONS = Inr w'"
    "snd (enumerate_items (Suc (length (items [''m''] (Folder mixedChildren)) + 0)) mixedFs w')
       = Some Ended"
    by fastforce
  with w len have ended: "snd (enumerate_items 7 mixedFs mixedWalker) = Some Ended"
    by (simp del: enumerate_items.simps items.simps)
  have its: "fst (enumerate_items 7 mixedFs mixedWalker)
     = [FolderItem ''/m/'' True,
         FileItem ''/m/'' True ''a'' ''txt'', FileItem ''/m/'' True ''b'' ''txt'',
         FolderItem ''/m/c/'' True, FileItem ''/m/c/'' True ''x'' ''txt'',
         FolderItem ''/m/d/'' True]"
    by code_simp
  have stack: "absoluteResolvedPathnames (snd (read mixedFs mixedWalker))
     = rev [''/m/a.txt'', ''/m/b.txt'', ''/m/c/'', ''/m/d/'']"
    by code_simp
  from its ended have "enumerate_items 7 mixedFs mixedWalker
     = ([FolderItem ''/m/'' True,
         FileItem ''/m/'' True ''a'' ''txt'', FileItem ''/m/'' True ''b'' ''txt'',
         FolderItem ''/m/c/'' True, FileItem ''/m/c/'' True ''x'' ''txt'',
         FolderItem ''/m/d/'' True],
        Some Ended)"
    by (simp add: prod_eq_iff del: enumerate_items.simps)
  with mirrors_mixed w stack show ?thesis by (simp only: simp_thms)
qed

end
